theory Spec2Isabelle
  imports Main "HOL-Library.Sublist" "HOL-Library.Word"
begin

unbundle bit_operations_syntax

section \<open>Strings\<close>

text \<open>
  Go strings are byte sequences; they are modelled as \<open>string\<close>.
  \<open>HasPrefix\<close> and \<open>Contains\<close> are \<^verbatim>\<open>strings.HasPrefix\<close> and
  \<^verbatim>\<open>strings.Contains\<close> of the Go standard library.
\<close>

fun HasPrefix :: "string \<Rightarrow> string \<Rightarrow> bool" where
  "HasPrefix s [] = True"
| "HasPrefix [] (p # ps) = False"
| "HasPrefix (c # cs) (p # ps) = (c = p \<and> HasPrefix cs ps)"

fun Contains :: "string \<Rightarrow> string \<Rightarrow> bool" where
  "Contains [] substr = (substr = [])"
| "Contains (c # cs) substr = (HasPrefix (c # cs) substr \<or> Contains cs substr)"

section \<open>Errors and contexts\<close>

text \<open>
  \<open>ctx.Err()\<close> is \<open>None\<close> while the context is live and one of the two context
  errors once it is done. \<open>Wrap msg e\<close> is \<^verbatim>\<open>fmt.Errorf(msg + ": %w", e)\<close>;
  \<open>OSError\<close> is an error of the operating system or of a library.
\<close>

datatype ctx_error = Canceled | DeadlineExceeded

datatype error =
    CtxError ctx_error
  | OSError string
  | Wrap string error
  | NilDirEntry

section \<open>Reports\<close>

record GoBinaryReportDetails =
  GoVersion :: string
  Module :: string
  UseSystemcrypto :: bool
  CGOEnabled :: bool
  FailsOnFIPSCheck :: bool
  RuntimePanicLog :: string

record BinaryReport =
  RelativePath :: string
  Type :: string
  GoBinaryDetails :: GoBinaryReportDetails
  Error :: "error option"

text \<open>The zero values of the two structs.\<close>

definition zeroDetails :: GoBinaryReportDetails where
  "zeroDetails = \<lparr>GoVersion = [], Module = [], UseSystemcrypto = False, CGOEnabled = False,
     FailsOnFIPSCheck = False, RuntimePanicLog = []\<rparr>"

definition zeroReport :: BinaryReport where
  "zeroReport = \<lparr>RelativePath = [], Type = [], GoBinaryDetails = zeroDetails, Error = None\<rparr>"

section \<open>The path filter\<close>

definition excludedPrefixes :: "string list" where
  "excludedPrefixes = [''/proc/'', ''/sys/'', ''/dev/'']"

text \<open>The loop of \<open>shouldExcludePath\<close>: return true at the first prefix that matches.\<close>

fun excludeLoop :: "string \<Rightarrow> string list \<Rightarrow> bool" where
  "excludeLoop filePath [] = False"
| "excludeLoop filePath (pre # rest) =
     (if HasPrefix filePath pre then True else excludeLoop filePath rest)"

definition shouldExcludePath :: "string \<Rightarrow> bool" where
  "shouldExcludePath filePath = excludeLoop filePath excludedPrefixes"

section \<open>Build provenance\<close>

text \<open>
  \<^verbatim>\<open>debug.BuildInfo\<close>, as far as \<open>checkGoBinaryFIPS\<close> reads it: the toolchain
  version, the path of the main module and the list of build settings (key, value).
\<close>

record BuildInfo =
  biGoVersion :: string
  biMainPath :: string
  biSettings :: "(string \<times> string) list"

text \<open>The loop over \<open>info.Settings\<close> with its switch on the key.\<close>

fun settingsLoop :: "GoBinaryReportDetails \<Rightarrow> (string \<times> string) list \<Rightarrow> GoBinaryReportDetails" where
  "settingsLoop details [] = details"
| "settingsLoop details ((k, v) # rest) =
     settingsLoop
       (if k = ''CGO_ENABLED'' then details\<lparr>CGOEnabled := (v = ''1'')\<rparr>
        else if k = ''GOEXPERIMENT'' then
          (if Contains v ''systemcrypto'' then details\<lparr>UseSystemcrypto := True\<rparr> else details)
        else details)
       rest"

text \<open>The static part of \<open>checkGoBinaryFIPS\<close>: version, module and settings.\<close>

definition staticDetails :: "BuildInfo \<Rightarrow> GoBinaryReportDetails" where
  "staticDetails info =
     (let details = zeroDetails\<lparr>GoVersion := biGoVersion info\<rparr>;
          details = (if biMainPath info \<noteq> [] then details\<lparr>Module := biMainPath info\<rparr> else details)
      in settingsLoop details (biSettings info))"

section \<open>The runtime probe\<close>

text \<open>
  What \<open>cmd.Run()\<close> leaves behind: its error, the captured standard error and
  \<open>execCtx.Err()\<close> of the two-second context. \<open>StartError\<close> is a failure to start
  the process at all; \<open>ExitError\<close> is a process that ran and exited unsuccessfully or was
  killed.
\<close>

datatype run_error = StartError string | ExitError int

record RunOutcome =
  runErr :: "run_error option"
  stderrOutput :: string
  execCtxErr :: "ctx_error option"

definition fipsPanicIndicators :: "string list" where
  "fipsPanicIndicators =
     [''panic: opensslcrypto: FIPS mode requested'',
      ''FIPS mode requested'',
      ''but not available in OpenSSL'']"

fun indicatorLoop :: "string \<Rightarrow> string list \<Rightarrow> bool" where
  "indicatorLoop out [] = False"
| "indicatorLoop out (indicator # rest) =
     (if Contains out indicator then True else indicatorLoop out rest)"

definition checkRuntimeFIPS :: "RunOutcome \<Rightarrow> bool \<times> string \<times> error option" where
  "checkRuntimeFIPS r =
     (if indicatorLoop (stderrOutput r) fipsPanicIndicators then (False, stderrOutput r, None)
      else if runErr r \<noteq> None then
        (if execCtxErr r = Some DeadlineExceeded then (True, stderrOutput r, None)
         else if \<not> Contains (stderrOutput r) ''FIPS'' then (True, stderrOutput r, None)
         else (True, stderrOutput r, None))
      else (True, stderrOutput r, None))"

text \<open>The part of \<open>checkGoBinaryFIPS\<close> after the settings loop.\<close>

definition runtimeDetails :: "GoBinaryReportDetails \<Rightarrow> RunOutcome \<Rightarrow> GoBinaryReportDetails \<times> error option" where
  "runtimeDetails details r =
     (case checkRuntimeFIPS r of
        (passed, panicLog, Some err) \<Rightarrow> (details, Some (Wrap ''runtime FIPS check failed'' err))
      | (passed, panicLog, None) \<Rightarrow>
          (details\<lparr>RuntimePanicLog := panicLog, FailsOnFIPSCheck := \<not> passed\<rparr>, None))"

text \<open>
  \<open>checkGoBinaryFIPS\<close> up to its call of \<open>checkRuntimeFIPS\<close>, given \<open>ctx.Err()\<close>
  at its entry and the result of \<^verbatim>\<open>buildinfo.ReadFile\<close>: \<open>Inl\<close> is an early
  return, \<open>Inr\<close> the details with which the probe is entered.
\<close>

definition checkGoBinaryFIPS_static ::
  "ctx_error option \<Rightarrow> error + BuildInfo \<Rightarrow>
     (GoBinaryReportDetails \<times> error option) + GoBinaryReportDetails" where
  "checkGoBinaryFIPS_static ctxErr rd =
     (case ctxErr of
        Some e \<Rightarrow> Inl (zeroDetails, Some (CtxError e))
      | None \<Rightarrow>
          (case rd of
             Inl err \<Rightarrow> Inl (zeroDetails, Some (Wrap ''failed to read build info'' err))
           | Inr info \<Rightarrow> Inr (staticDetails info)))"

text \<open>The whole of \<open>checkGoBinaryFIPS\<close>, given also the outcome of running the binary.\<close>

definition checkGoBinaryFIPS ::
  "ctx_error option \<Rightarrow> error + BuildInfo \<Rightarrow> RunOutcome \<Rightarrow> GoBinaryReportDetails \<times> error option" where
  "checkGoBinaryFIPS ctxErr rd r =
     (case checkGoBinaryFIPS_static ctxErr rd of
        Inl res \<Rightarrow> res
      | Inr details \<Rightarrow> runtimeDetails details r)"

section \<open>The classifier\<close>

text \<open>
  The file system as \<open>isBinary\<close> sees it: \<^verbatim>\<open>os.Stat\<close> (the mode bits, or an error),
  \<^verbatim>\<open>elf.Open\<close> (its error) and \<^verbatim>\<open>buildinfo.ReadFile\<close>.
\<close>

record FileSys =
  osStat :: "string \<Rightarrow> error + 32 word"
  elfOpen :: "string \<Rightarrow> error option"
  ReadFile :: "string \<Rightarrow> error + BuildInfo"

definition isBinary :: "FileSys \<Rightarrow> string \<Rightarrow> bool" where
  "isBinary fs filePath =
     (case osStat fs filePath of
        Inl err \<Rightarrow> False
      | Inr mode \<Rightarrow>
          if mode AND 0x49 = 0 then False
          else (case elfOpen fs filePath of
                  Some err \<Rightarrow> False
                | None \<Rightarrow> (case ReadFile fs filePath of Inl err \<Rightarrow> False | Inr info \<Rightarrow> True)))"

section \<open>The directory walk\<close>

text \<open>
  The tree that \<^verbatim>\<open>filepath.WalkDir\<close> reads: a node is a file (anything that is not a
  directory) or a directory with the error of \<^verbatim>\<open>os.ReadDir\<close> and the entries it
  returned, each with its name.
\<close>

datatype FsNode = File | Dir "error option" FsEntries
and FsEntries = NoEntries | Entry string FsNode FsEntries

datatype DirEntry = DirEntry (IsDir: bool)

text \<open>
  \<^verbatim>\<open>filepath.Join\<close> of a clean absolute path and an entry name.
\<close>

definition Join :: "string \<Rightarrow> string \<Rightarrow> string" where
  "Join dir name = (if dir = ''/'' then ''/'' @ name else dir @ ''/'' @ name)"

text \<open>
  \<^verbatim>\<open>walkDir\<close> of the Go library with the state of the callback passed along: the
  callback is called on the node; for a directory it is called again with the error of
  \<^verbatim>\<open>ReadDir\<close> when there is one, and then the entries are walked in order. The first
  error of the callback ends the walk. (The callback of \<open>Check\<close> returns nil or
  \<open>ctx.Err()\<close> only, so the library's special errors SkipDir and SkipAll are left out.)
\<close>

fun walkDir ::
  "('s \<Rightarrow> string \<Rightarrow> DirEntry option \<Rightarrow> error option \<Rightarrow> error option \<times> 's) \<Rightarrow>
     string \<Rightarrow> FsNode \<Rightarrow> 's \<Rightarrow> error option \<times> 's"
and walkEntries ::
  "('s \<Rightarrow> string \<Rightarrow> DirEntry option \<Rightarrow> error option \<Rightarrow> error option \<times> 's) \<Rightarrow>
     string \<Rightarrow> FsEntries \<Rightarrow> 's \<Rightarrow> error option \<times> 's"
where
  "walkDir fn path File st = fn st path (Some (DirEntry False)) None"
| "walkDir fn path (Dir readErr entries) st =
     (case fn st path (Some (DirEntry True)) None of
        (Some e, st1) \<Rightarrow> (Some e, st1)
      | (None, st1) \<Rightarrow>
          (case readErr of
             None \<Rightarrow> walkEntries fn path entries st1
           | Some re \<Rightarrow>
               (case fn st1 path (Some (DirEntry True)) (Some re) of
                  (Some e, st2) \<Rightarrow> (Some e, st2)
                | (None, st2) \<Rightarrow> walkEntries fn path entries st2)))"
| "walkEntries fn path NoEntries st = (None, st)"
| "walkEntries fn path (Entry name node rest) st =
     (case walkDir fn (Join path name) node st of
        (Some e, st1) \<Rightarrow> (Some e, st1)
      | (None, st1) \<Rightarrow> walkEntries fn path rest st1)"

text \<open>
  \<^verbatim>\<open>filepath.WalkDir\<close>: when \<^verbatim>\<open>os.Lstat\<close> of the root fails, the callback is
  called once, with a nil entry and that error.
\<close>

definition WalkDir ::
  "(string \<Rightarrow> error + FsNode) \<Rightarrow>
     ('s \<Rightarrow> string \<Rightarrow> DirEntry option \<Rightarrow> error option \<Rightarrow> error option \<times> 's) \<Rightarrow>
     string \<Rightarrow> 's \<Rightarrow> error option \<times> 's" where
  "WalkDir lstat fn root st =
     (case lstat root of
        Inl err \<Rightarrow> fn st root None (Some err)
      | Inr node \<Rightarrow> walkDir fn root node st)"

text \<open>
  The state of the callback of \<open>Check\<close>: the candidates collected so far, and the
  context as the walk sees it. \<open>pollsLeft = None\<close> is a context that stays live;
  \<open>pollsLeft = Some k\<close> is a context that the next \<open>k\<close> polls find live and every
  later one finds done, with the error \<open>doneErr\<close>.
\<close>

record WalkState =
  pollsLeft :: "nat option"
  doneErr :: ctx_error
  binaryPaths :: "string list"

text \<open>The callback that \<open>Check\<close> passes to \<^verbatim>\<open>filepath.WalkDir\<close>.\<close>

definition walkFn ::
  "FileSys \<Rightarrow> WalkState \<Rightarrow> string \<Rightarrow> DirEntry option \<Rightarrow> error option \<Rightarrow> error option \<times> WalkState" where
  "walkFn fs st filePath d err =
     (if err \<noteq> None then (None, st)
      else if pollsLeft st = Some 0 then (Some (CtxError (doneErr st)), st)
      else
        (let st1 = st\<lparr>pollsLeft := map_option (\<lambda>k. k - 1) (pollsLeft st)\<rparr> in
         case d of
           None \<Rightarrow> (Some NilDirEntry, st1)
         | Some entry \<Rightarrow>
             if IsDir entry then (None, st1)
             else if shouldExcludePath filePath then (None, st1)
             else if isBinary fs filePath then
               (None, st1\<lparr>binaryPaths := binaryPaths st1 @ [filePath]\<rparr>)
             else (None, st1)))"

section \<open>The orchestrator\<close>

text \<open>
  Everything outside the program that \<open>Check\<close> reads: \<^verbatim>\<open>filepath.Abs\<close>, the tree
  at a root as \<^verbatim>\<open>os.Lstat\<close> and \<^verbatim>\<open>filepath.WalkDir\<close> find it, the files as
  the classifier sees them during the walk, \<^verbatim>\<open>filepath.Rel\<close>,
  \<^verbatim>\<open>buildinfo.ReadFile\<close> as a task finds the file later (the file system may have
  changed since the walk), and the run of a binary with GOFIPS=1 under the two-second
  deadline, which also depends on \<open>ctx.Err()\<close> of the scan's context when the run ends.
\<close>

record World =
  filepathAbs :: "string \<Rightarrow> error + string"
  osLstat :: "string \<Rightarrow> error + FsNode"
  walkFS :: FileSys
  filepathRel :: "string \<Rightarrow> string \<Rightarrow> error + string"
  taskReadFile :: "string \<Rightarrow> error + BuildInfo"
  cmdRun :: "string \<Rightarrow> ctx_error option \<Rightarrow> RunOutcome"

text \<open>
  The goroutines of \<open>Check\<close> run interleaved. Each task is at one of these points of the
  function literal: not started; at the send on the semaphore channel; at its poll of the
  context (from here on it holds a token of the semaphore); at the entry of
  \<open>checkGoBinaryFIPS\<close>; inside \<open>cmd.Run()\<close>, the subprocess running, with the details
  collected so far; at the assignment to its slot, with the report to store; at its
  deferred calls; finished.
\<close>

datatype task_pc =
    T_idle
  | T_acquire
  | T_ctxcheck
  | T_check
  | T_probe GoBinaryReportDetails
  | T_write BinaryReport
  | T_exit
  | T_done

text \<open>
  The calling goroutine is in the dispatch loop before candidate \<open>i\<close> (and at
  \<open>wg.Wait()\<close> when \<open>i\<close> is the number of candidates), or it has returned; a nil
  slice is \<open>None\<close>.
\<close>

datatype main_pc = M_loop nat | M_ret "BinaryReport list option \<times> error option"

text \<open>
  The shared state: the context, the two program counters, the slice \<open>reports\<close>, the
  number of tokens in the channel \<open>semaphore\<close> and the counter of the wait group.
  \<open>writes\<close> is not in the program: it counts the assignments to each slot.
\<close>

record CheckState =
  ctxErr :: "ctx_error option"
  mainPc :: main_pc
  tasks :: "task_pc list"
  reports :: "BinaryReport list"
  writes :: "nat list"
  semaphore :: nat
  wg :: nat

definition semaphoreCap :: nat where
  "semaphoreCap = 10"

definition initState :: "ctx_error option \<Rightarrow> nat \<Rightarrow> CheckState" where
  "initState c n =
     \<lparr>ctxErr = c, mainPc = M_loop 0, tasks = replicate n T_idle,
      reports = replicate n zeroReport, writes = replicate n 0, semaphore = 0, wg = 0\<rparr>"

text \<open>
  One step of the calling goroutine. In the loop: poll the context and return at once when
  it is done, else start the goroutine of candidate \<open>i\<close>. After the loop:
  \<open>wg.Wait()\<close> blocks until the counter is zero; then the context is polled a last time.
\<close>

definition mainStep :: "CheckState \<Rightarrow> CheckState" where
  "mainStep s =
     (case mainPc s of
        M_ret res \<Rightarrow> s
      | M_loop i \<Rightarrow>
          if i < length (tasks s) then
            (case ctxErr s of
               Some e \<Rightarrow> s\<lparr>mainPc := M_ret (None, Some (CtxError e))\<rparr>
             | None \<Rightarrow> s\<lparr>wg := wg s + 1, tasks := (tasks s)[i := T_acquire], mainPc := M_loop (i + 1)\<rparr>)
          else if wg s = 0 then
            (case ctxErr s of
               Some e \<Rightarrow> s\<lparr>mainPc := M_ret (None, Some (CtxError e))\<rparr>
             | None \<Rightarrow> s\<lparr>mainPc := M_ret (Some (reports s), None)\<rparr>)
          else s)"

definition relPathOf :: "World \<Rightarrow> string \<Rightarrow> string \<Rightarrow> string" where
  "relPathOf W absRoot fp = (case filepathRel W absRoot fp of Inl err \<Rightarrow> fp | Inr rel \<Rightarrow> rel)"

definition mkReport :: "string \<Rightarrow> GoBinaryReportDetails \<times> error option \<Rightarrow> BinaryReport" where
  "mkReport relPath res =
     \<lparr>RelativePath = relPath, Type = ''gobinary'', GoBinaryDetails = fst res, Error = snd res\<rparr>"

text \<open>
  One step of the goroutine of candidate \<open>idx\<close> with path \<open>fp\<close>. The send on the
  channel blocks while the channel is full.
\<close>

definition taskStep :: "World \<Rightarrow> string \<Rightarrow> string \<Rightarrow> nat \<Rightarrow> CheckState \<Rightarrow> CheckState" where
  "taskStep W absRoot fp idx s =
     (case tasks s ! idx of
        T_idle \<Rightarrow> s
      | T_acquire \<Rightarrow>
          if semaphore s < semaphoreCap then
            s\<lparr>semaphore := semaphore s + 1, tasks := (tasks s)[idx := T_ctxcheck]\<rparr>
          else s
      | T_ctxcheck \<Rightarrow>
          (case ctxErr s of
             Some e \<Rightarrow> s\<lparr>tasks := (tasks s)[idx := T_exit]\<rparr>
           | None \<Rightarrow> s\<lparr>tasks := (tasks s)[idx := T_check]\<rparr>)
      | T_check \<Rightarrow>
          (case checkGoBinaryFIPS_static (ctxErr s) (taskReadFile W fp) of
             Inl res \<Rightarrow> s\<lparr>tasks := (tasks s)[idx := T_write (mkReport (relPathOf W absRoot fp) res)]\<rparr>
           | Inr details \<Rightarrow> s\<lparr>tasks := (tasks s)[idx := T_probe details]\<rparr>)
      | T_probe details \<Rightarrow>
          s\<lparr>tasks := (tasks s)[idx := T_write (mkReport (relPathOf W absRoot fp)
               (runtimeDetails details (cmdRun W fp (ctxErr s))))]\<rparr>
      | T_write report \<Rightarrow>
          s\<lparr>reports := (reports s)[idx := report], writes := (writes s)[idx := writes s ! idx + 1],
            tasks := (tasks s)[idx := T_exit]\<rparr>
      | T_exit \<Rightarrow>
          s\<lparr>semaphore := semaphore s - 1, wg := wg s - 1, tasks := (tasks s)[idx := T_done]\<rparr>
      | T_done \<Rightarrow> s)"

text \<open>
  An event is a step of one goroutine or the context becoming done (cancelled, or past
  its deadline). A step that is blocked, or of a goroutine that does not exist, changes
  nothing; a context that is done stays as it is.
\<close>

datatype event = CtxDone ctx_error | Main | Task nat

fun step :: "World \<Rightarrow> string \<Rightarrow> string list \<Rightarrow> event \<Rightarrow> CheckState \<Rightarrow> CheckState" where
  "step W absRoot paths (CtxDone e) s =
     (case ctxErr s of None \<Rightarrow> s\<lparr>ctxErr := Some e\<rparr> | Some e' \<Rightarrow> s)"
| "step W absRoot paths Main s = mainStep s"
| "step W absRoot paths (Task idx) s =
     (if idx < length paths \<and> idx < length (tasks s) then taskStep W absRoot (paths ! idx) idx s else s)"

fun run :: "World \<Rightarrow> string \<Rightarrow> string list \<Rightarrow> event list \<Rightarrow> CheckState \<Rightarrow> CheckState" where
  "run W absRoot paths [] s = s"
| "run W absRoot paths (ev # evs) s = run W absRoot paths evs (step W absRoot paths ev s)"

text \<open>
  The first half of \<open>Check\<close>: the walk from the absolute root. The context of the
  walk is given by \<open>polls\<close> and \<open>derr\<close> as in \<open>WalkState\<close>.
\<close>

definition discover :: "World \<Rightarrow> nat option \<Rightarrow> ctx_error \<Rightarrow> string \<Rightarrow> error option \<times> WalkState" where
  "discover W polls derr absRoot =
     WalkDir (osLstat W) (walkFn (walkFS W)) absRoot
       \<lparr>pollsLeft = polls, doneErr = derr, binaryPaths = []\<rparr>"

text \<open>
  The second half under a schedule of events: the state that the goroutines reach. A
  context whose polls are used up when the walk ends is done from the start.
\<close>

definition dispatch :: "World \<Rightarrow> string \<Rightarrow> WalkState \<Rightarrow> event list \<Rightarrow> CheckState" where
  "dispatch W absRoot st sched =
     run W absRoot (binaryPaths st) sched
       (initState (if pollsLeft st = Some 0 then Some (doneErr st) else None)
          (length (binaryPaths st)))"

text \<open>
  \<open>Check\<close>: the absolute path, the walk, then the goroutines. The result is \<open>None\<close>
  when the calling goroutine has not returned by the end of the schedule.
\<close>

definition Check ::
  "World \<Rightarrow> nat option \<Rightarrow> ctx_error \<Rightarrow> string \<Rightarrow> event list \<Rightarrow>
     (BinaryReport list option \<times> error option) option" where
  "Check W polls derr path sched =
     (case filepathAbs W path of
        Inl err \<Rightarrow> Some (None, Some (Wrap ''failed to get absolute path'' err))
      | Inr absRoot \<Rightarrow>
          (case discover W polls derr absRoot of
             (Some err, st) \<Rightarrow> Some (None, Some (Wrap ''error walking directory tree'' err))
           | (None, st) \<Rightarrow>
               (case mainPc (dispatch W absRoot st sched) of
                  M_ret res \<Rightarrow> Some res
                | M_loop i \<Rightarrow> None)))"

text \<open>The report that the task of a candidate stores when the context stays live.\<close>

definition taskReport :: "World \<Rightarrow> string \<Rightarrow> string \<Rightarrow> BinaryReport" where
  "taskReport W absRoot fp =
     mkReport (relPathOf W absRoot fp)
       (checkGoBinaryFIPS None (taskReadFile W fp) (cmdRun W fp None))"

section \<open>The evaluator and the printed status\<close>

datatype Verdict = COMPLIANT | NOT_COMPLIANT

datatype ReasonTag =
    CryptoBackendNotEngaged
  | RuntimeRefusedStrictMode
  | HostLacksValidatedModule
  | Tentative

text \<open>
  Modelled from the spec: the function \<open>IsBinaryFIPSCompliant\<close> of package fipscheck is
  called and tested in the sources (\<open>TestIsBinaryFIPSCompliant\<close>), and its body is not
  among them. This is the ComplianceEvaluator of section 4.5 of the specification, its
  four cases in their order of priority.
\<close>

definition ComplianceEvaluator :: "bool \<Rightarrow> bool \<Rightarrow> bool \<Rightarrow> Verdict \<times> ReasonTag" where
  "ComplianceEvaluator usesSystemCrypto runtimeProbePassed hostFipsCapable =
     (if \<not> usesSystemCrypto then (NOT_COMPLIANT, CryptoBackendNotEngaged)
      else if \<not> runtimeProbePassed then (NOT_COMPLIANT, RuntimeRefusedStrictMode)
      else if \<not> hostFipsCapable then (NOT_COMPLIANT, HostLacksValidatedModule)
      else (COMPLIANT, Tentative))"

text \<open>
  Modelled from the spec: \<open>IsBinaryFIPSCompliant\<close> as its callers use it, on the details
  of a report and the capability of the host; the probe has passed when
  \<open>FailsOnFIPSCheck\<close> is false.
\<close>

definition IsBinaryFIPSCompliant :: "GoBinaryReportDetails \<Rightarrow> bool \<Rightarrow> bool" where
  "IsBinaryFIPSCompliant details hostCapable =
     (fst (ComplianceEvaluator (UseSystemcrypto details) (\<not> FailsOnFIPSCheck details) hostCapable)
        = COMPLIANT)"

text \<open>
  The table of \<open>TestIsBinaryFIPSCompliant\<close>: the details, the host capability and the
  expected result of each row.
\<close>

definition testDetails :: "bool \<Rightarrow> bool \<Rightarrow> bool \<Rightarrow> GoBinaryReportDetails" where
  "testDetails sc cgo fails =
     zeroDetails\<lparr>UseSystemcrypto := sc, CGOEnabled := cgo, FailsOnFIPSCheck := fails\<rparr>"

definition complianceTests :: "(GoBinaryReportDetails \<times> bool \<times> bool) list" where
  "complianceTests =
     [(testDetails True True False, True, True),
      (testDetails False True False, True, False),
      (testDetails True True True, True, False),
      (testDetails True True False, False, False),
      (testDetails False False True, False, False)]"

text \<open>
  The status line that \<open>printReports\<close> of the command prints for a report; it does not
  read the capability of the host.
\<close>

datatype StatusLine = NOT_FIPS_ENABLED | STATUS_NOT_COMPLIANT | MIGHT_BE_COMPLIANT

definition printedStatus :: "GoBinaryReportDetails \<Rightarrow> StatusLine" where
  "printedStatus details =
     (if \<not> UseSystemcrypto details then NOT_FIPS_ENABLED
      else if FailsOnFIPSCheck details then STATUS_NOT_COMPLIANT
      else MIGHT_BE_COMPLIANT)"

section \<open>Notions for the statements\<close>

text \<open>
  A task holds a token of the semaphore from its send on the channel to its deferred
  receive; it is counted by the wait group from its start to its deferred \<open>wg.Done()\<close>;
  its subprocess runs while it is inside \<open>cmd.Run()\<close>.
\<close>

fun holding :: "task_pc \<Rightarrow> bool" where
  "holding T_idle = False"
| "holding T_acquire = False"
| "holding T_done = False"
| "holding pc = True"

fun active :: "task_pc \<Rightarrow> bool" where
  "active T_idle = False"
| "active T_done = False"
| "active pc = True"

fun probing :: "task_pc \<Rightarrow> bool" where
  "probing (T_probe details) = True"
| "probing pc = False"

text \<open>
  What holds of the task of a candidate, its slot and the number of writes to the slot
  while the context is live.
\<close>

fun task_ok :: "World \<Rightarrow> string \<Rightarrow> string \<Rightarrow> task_pc \<Rightarrow> BinaryReport \<Rightarrow> nat \<Rightarrow> bool" where
  "task_ok W absRoot fp (T_probe details) slot w =
     (w = 0 \<and> checkGoBinaryFIPS_static None (taskReadFile W fp) = Inr details)"
| "task_ok W absRoot fp (T_write report) slot w = (w = 0 \<and> report = taskReport W absRoot fp)"
| "task_ok W absRoot fp T_exit slot w = (w = 1 \<and> slot = taskReport W absRoot fp)"
| "task_ok W absRoot fp T_done slot w = (w = 1 \<and> slot = taskReport W absRoot fp)"
| "task_ok W absRoot fp pc slot w = (w = 0)"

definition inv_struct :: "nat \<Rightarrow> CheckState \<Rightarrow> bool" where
  "inv_struct n s \<longleftrightarrow> length (tasks s) = n \<and> length (reports s) = n \<and> length (writes s) = n"

definition inv_sem :: "CheckState \<Rightarrow> bool" where
  "inv_sem s \<longleftrightarrow> semaphore s = length (filter holding (tasks s)) \<and> semaphore s \<le> semaphoreCap"

definition inv_wg :: "CheckState \<Rightarrow> bool" where
  "inv_wg s \<longleftrightarrow> wg s = length (filter active (tasks s))"

definition inv_loop :: "CheckState \<Rightarrow> bool" where
  "inv_loop s \<longleftrightarrow>
     (case mainPc s of
        M_loop i \<Rightarrow> i \<le> length (tasks s) \<and> (\<forall>j<length (tasks s). (tasks s ! j = T_idle) = (i \<le> j))
      | M_ret res \<Rightarrow> True)"

definition inv_live :: "World \<Rightarrow> string \<Rightarrow> string list \<Rightarrow> CheckState \<Rightarrow> bool" where
  "inv_live W absRoot paths s \<longleftrightarrow>
     (ctxErr s = None \<longrightarrow>
        (\<forall>j<length paths. task_ok W absRoot (paths ! j) (tasks s ! j) (reports s ! j) (writes s ! j)))"

definition inv_ret :: "World \<Rightarrow> string \<Rightarrow> string list \<Rightarrow> CheckState \<Rightarrow> bool" where
  "inv_ret W absRoot paths s \<longleftrightarrow>
     (case mainPc s of
        M_loop i \<Rightarrow> True
      | M_ret (None, e) \<Rightarrow> e \<noteq> None
      | M_ret (Some rs, e) \<Rightarrow>
          e = None \<and> rs = map (taskReport W absRoot) paths \<and> reports s = rs \<and>
          writes s = replicate (length paths) 1 \<and> (\<forall>pc\<in>set (tasks s). pc = T_done))"

definition inv :: "World \<Rightarrow> string \<Rightarrow> string list \<Rightarrow> CheckState \<Rightarrow> bool" where
  "inv W absRoot paths s \<longleftrightarrow>
     inv_struct (length paths) s \<and> inv_sem s \<and> inv_wg s \<and> inv_loop s \<and>
     inv_live W absRoot paths s \<and> inv_ret W absRoot paths s"

text \<open>The number of steps that a task has before it, at most.\<close>

fun stepsLeft :: "task_pc \<Rightarrow> nat" where
  "stepsLeft T_idle = 0"
| "stepsLeft T_acquire = 6"
| "stepsLeft T_ctxcheck = 5"
| "stepsLeft T_check = 4"
| "stepsLeft (T_probe details) = 3"
| "stepsLeft (T_write report) = 2"
| "stepsLeft T_exit = 1"
| "stepsLeft T_done = 0"

text \<open>
  A schedule that lets the calling goroutine start the \<open>n\<close> tasks, then runs the tasks
  one after the other, each to its end, and then lets the calling goroutine go on.
\<close>

fun tasksFrom :: "nat \<Rightarrow> nat \<Rightarrow> event list" where
  "tasksFrom k 0 = []"
| "tasksFrom k (Suc m) = [Task k, Task k, Task k, Task k, Task k, Task k] @ tasksFrom (Suc k) m"

definition fullSchedule :: "nat \<Rightarrow> event list" where
  "fullSchedule n = replicate n Main @ tasksFrom 0 n @ [Main]"

fun isCtxDone :: "event \<Rightarrow> bool" where
  "isCtxDone (CtxDone e) = True"
| "isCtxDone ev = False"

text \<open>
  A tree as a file system has it: in a directory no name occurs twice, and a name is not
  empty and has no slash in it. \<open>below p\<close> are the paths at and under the path \<open>p\<close>.
\<close>

fun entryNames :: "FsEntries \<Rightarrow> string list" where
  "entryNames NoEntries = []"
| "entryNames (Entry name node rest) = name # entryNames rest"

fun wfNode :: "FsNode \<Rightarrow> bool" and wfEntries :: "FsEntries \<Rightarrow> bool" where
  "wfNode File = True"
| "wfNode (Dir readErr entries) = (wfEntries entries \<and> distinct (entryNames entries))"
| "wfEntries NoEntries = True"
| "wfEntries (Entry name node rest) =
     (name \<noteq> [] \<and> CHR ''/'' \<notin> set name \<and> wfNode node \<and> wfEntries rest)"

definition slash :: "string \<Rightarrow> string" where
  "slash dir = (if dir = ''/'' then ''/'' else dir @ ''/'')"

definition below :: "string \<Rightarrow> string set" where
  "below p = {q. q = p \<or> prefix (slash p) q}"

text \<open>The paths of the files of a node at a path, in the order of the walk.\<close>

fun filesOf :: "string \<Rightarrow> FsNode \<Rightarrow> string list"
and filesOfEntries :: "string \<Rightarrow> FsEntries \<Rightarrow> string list" where
  "filesOf path File = [path]"
| "filesOf path (Dir readErr entries) = filesOfEntries path entries"
| "filesOfEntries path NoEntries = []"
| "filesOfEntries path (Entry name node rest) = filesOf (Join path name) node @ filesOfEntries path rest"

text \<open>
  The world in which the build information of the file at \<open>p\<close> cannot be read any more
  when a task gets to it, and all else is as in \<open>W\<close>.
\<close>

definition withUnreadable :: "World \<Rightarrow> string \<Rightarrow> error \<Rightarrow> World" where
  "withUnreadable W p err = W\<lparr>taskReadFile := (taskReadFile W)(p := Inl err)\<rparr>"

text \<open>The report of a candidate whose build information cannot be read.\<close>

definition extractionErrorReport :: "World \<Rightarrow> string \<Rightarrow> string \<Rightarrow> error \<Rightarrow> BinaryReport" where
  "extractionErrorReport W absRoot fp err =
     \<lparr>RelativePath = relPathOf W absRoot fp, Type = ''gobinary'', GoBinaryDetails = zeroDetails,
      Error = Some (Wrap ''failed to read build info'' err)\<rparr>"

section \<open>An example\<close>

text \<open>
  A root \<open>/img\<close> with two Go binaries, which run and exit at once. No other root
  exists.
\<close>

definition exInfo :: BuildInfo where
  "exInfo = \<lparr>biGoVersion = ''go1.24.6'', biMainPath = ''example.com/app'',
     biSettings = [(''CGO_ENABLED'', ''1''), (''GOEXPERIMENT'', ''systemcrypto'')]\<rparr>"

definition exTree :: FsNode where
  "exTree = Dir None (Entry ''a'' File (Entry ''b'' File NoEntries))"

definition exRun :: RunOutcome where
  "exRun = \<lparr>runErr = None, stderrOutput = [], execCtxErr = None\<rparr>"

definition exWorld :: World where
  "exWorld =
     \<lparr>filepathAbs = (\<lambda>p. Inr p),
      osLstat = (\<lambda>p. if p = ''/img'' then Inr exTree else Inl (OSError ''no such file or directory'')),
      walkFS = \<lparr>osStat = (\<lambda>p. Inr 0x1ED), elfOpen = (\<lambda>p. None), ReadFile = (\<lambda>p. Inr exInfo)\<rparr>,
      filepathRel = (\<lambda>b t. if prefix (b @ ''/'') t then Inr (drop (length b + 1) t)
                            else Inl (OSError ''Rel: cannot make relative'')),
      taskReadFile = (\<lambda>p. Inr exInfo),
      cmdRun = (\<lambda>p c. exRun)\<rparr>"

text \<open>
  Two outcomes of the probe: a panic of the OpenSSL backend, and a process that was still
  running at the deadline and had written nothing.
\<close>

definition exPanic :: RunOutcome where
  "exPanic = \<lparr>runErr = Some (ExitError 2),
     stderrOutput = ''panic: opensslcrypto: FIPS mode requested (system FIPS mode) but not available in OpenSSL 3.0.16'',
     execCtxErr = None\<rparr>"

definition exTimeout :: RunOutcome where
  "exTimeout = \<lparr>runErr = Some (ExitError (- 1)), stderrOutput = [], execCtxErr = Some DeadlineExceeded\<rparr>"

text \<open>
  A binary that cannot be started, and build information in which the key
  \<open>CGO_ENABLED\<close> occurs twice.
\<close>

definition exStartFailure :: RunOutcome where
  "exStartFailure = \<lparr>runErr = Some (StartError ''fork/exec /img/a: exec format error''),
     stderrOutput = [], execCtxErr = None\<rparr>"

definition exDupSettings :: BuildInfo where
  "exDupSettings = \<lparr>biGoVersion = ''go1.24.6'', biMainPath = [],
     biSettings = [(''CGO_ENABLED'', ''1''), (''CGO_ENABLED'', ''0'')]\<rparr>"

text \<open>
  The candidates of the example as the walk finds them; the example with the second binary
  unreadable for its task; and two schedules. In the first the context is cancelled while
  the first task is inside \<open>cmd.Run()\<close> and the second is not started. In the second
  the task of the second candidate runs to its end before that of the first.
\<close>

definition exWalk :: WalkState where
  "exWalk = \<lparr>pollsLeft = None, doneErr = Canceled, binaryPaths = [''/img/a'', ''/img/b'']\<rparr>"

definition exCorrupt :: World where
  "exCorrupt = withUnreadable exWorld ''/img/b'' (OSError ''unexpected EOF'')"

definition exEarlyReturn :: "event list" where
  "exEarlyReturn = [Main, Task 0, Task 0, Task 0, CtxDone Canceled, Main]"

definition exReverse :: "event list" where
  "exReverse =
     [Main, Main, Task 1, Task 0, Task 1, Task 1, Task 1, Task 1, Task 1,
      Task 0, Task 0, Task 0, Task 0, Task 0, Main]"

text \<open>A tree with a \<open>proc\<close> directory in it.\<close>

definition exProcTree :: FsNode where
  "exProcTree = Dir None (Entry ''proc'' (Dir None (Entry ''1'' (Dir None (Entry ''exe'' File NoEntries)) NoEntries))
                 (Entry ''app'' File NoEntries))"

section \<open>Strings: the library functions against their specification\<close>

lemma HasPrefix_prefix: "HasPrefix s p = prefix p s"
  by (induction s p rule: HasPrefix.induct) auto

lemma Contains_sublist: "Contains s sub = sublist sub s"
  by (induction s) (simp_all add: HasPrefix_prefix sublist_Cons_right)

lemma excludeLoop_ex: "excludeLoop p ps = (\<exists>pre\<in>set ps. prefix pre p)"
  by (induction ps) (auto simp: HasPrefix_prefix)

lemma indicatorLoop_ex: "indicatorLoop out ms = (\<exists>m\<in>set ms. sublist m out)"
  by (induction ms) (auto simp: Contains_sublist)

section \<open>The settings loop\<close>

lemma settingsLoop_CGO:
  "CGOEnabled (settingsLoop d ss) =
     (let cs = filter (\<lambda>kv. fst kv = ''CGO_ENABLED'') ss
      in if cs = [] then CGOEnabled d else snd (last cs) = ''1'')"
  by (induction d ss rule: settingsLoop.induct) (auto simp: Let_def)

lemma settingsLoop_SC:
  "UseSystemcrypto (settingsLoop d ss) =
     (UseSystemcrypto d \<or> (\<exists>v. (''GOEXPERIMENT'', v) \<in> set ss \<and> sublist ''systemcrypto'' v))"
  by (induction d ss rule: settingsLoop.induct) (auto simp: Contains_sublist)

section \<open>Counting the tasks at a point of the program\<close>

lemma filter_update_length:
  "i < length xs \<Longrightarrow>
     length (filter P (xs[i := y])) + (if P (xs ! i) then 1 else 0) =
     length (filter P xs) + (if P y then 1 else 0)"
proof (induction xs arbitrary: i)
  case Nil
  then show ?case by simp
next
  case (Cons x xs)
  show ?case
  proof (cases i)
    case 0
    then show ?thesis by simp
  next
    case (Suc k)
    with Cons.prems have "k < length xs" by simp
    from Cons.IH[OF this] Suc show ?thesis by simp
  qed
qed

lemma filter_update_same:
  "i < length xs \<Longrightarrow> P (xs ! i) = P y \<Longrightarrow> length (filter P (xs[i := y])) = length (filter P xs)"
  using filter_update_length[of i xs P y] by (simp split: if_splits)

lemma filter_update_enter:
  "i < length xs \<Longrightarrow> \<not> P (xs ! i) \<Longrightarrow> P y \<Longrightarrow> length (filter P (xs[i := y])) = length (filter P xs) + 1"
  using filter_update_length[of i xs P y] by simp

lemma filter_update_leave:
  "i < length xs \<Longrightarrow> P (xs ! i) \<Longrightarrow> \<not> P y \<Longrightarrow> length (filter P (xs[i := y])) = length (filter P xs) - 1"
  using filter_update_length[of i xs P y] by simp

lemma filter_pos:
  "i < length xs \<Longrightarrow> P (xs ! i) \<Longrightarrow> 0 < length (filter P xs)"
  by (metis filter_empty_conv length_greater_0_conv nth_mem)

lemma step_struct: "inv_struct n s \<Longrightarrow> inv_struct n (step W r paths ev s)"
  by (cases ev) (auto simp: inv_struct_def mainStep_def taskStep_def 
      split: option.splits main_pc.splits task_pc.splits sum.splits)

lemma main_sem: "inv_struct n s \<Longrightarrow> inv_loop s \<Longrightarrow> inv_sem s \<Longrightarrow> inv_sem (mainStep s)"
  by (auto simp: inv_struct_def inv_sem_def inv_loop_def mainStep_def filter_update_same
      split: option.splits main_pc.splits)

lemma task_sem: "idx < length (tasks s) \<Longrightarrow> inv_sem s \<Longrightarrow> inv_sem (taskStep W r fp idx s)"
  by (auto simp: inv_sem_def taskStep_def filter_update_same filter_update_enter filter_update_leave
      split: option.splits task_pc.splits sum.splits)

lemma step_sem: "inv_struct n s \<Longrightarrow> inv_loop s \<Longrightarrow> inv_sem s \<Longrightarrow> inv_sem (step W r paths ev s)"
  by (cases ev) (auto simp: main_sem task_sem split: option.splits, simp add: inv_sem_def)


lemma main_wg: "inv_struct n s \<Longrightarrow> inv_loop s \<Longrightarrow> inv_wg s \<Longrightarrow> inv_wg (mainStep s)"
  by (auto simp: inv_struct_def inv_wg_def inv_loop_def mainStep_def filter_update_enter
      split: option.splits main_pc.splits)

lemma task_wg: "idx < length (tasks s) \<Longrightarrow> inv_wg s \<Longrightarrow> inv_wg (taskStep W r fp idx s)"
  by (auto simp: inv_wg_def taskStep_def filter_update_same filter_update_leave
      split: option.splits task_pc.splits sum.splits)

lemma step_wg: "inv_struct n s \<Longrightarrow> inv_loop s \<Longrightarrow> inv_wg s \<Longrightarrow> inv_wg (step W r paths ev s)"
  by (cases ev) (auto simp: main_wg task_wg split: option.splits, simp add: inv_wg_def)

lemma main_loop: "inv_loop s \<Longrightarrow> inv_loop (mainStep s)"
  by (auto simp: inv_loop_def mainStep_def nth_list_update
      split: option.splits main_pc.splits)

lemma task_tasks_idle:
  "idx < length (tasks s) \<Longrightarrow> j < length (tasks s) \<Longrightarrow>
     (tasks (taskStep W r fp idx s) ! j = T_idle) = (tasks s ! j = T_idle)"
  by (auto simp: taskStep_def nth_list_update split: option.splits task_pc.splits sum.splits)

lemma task_mainPc: "mainPc (taskStep W r fp idx s) = mainPc s"
  by (auto simp: taskStep_def split: option.splits task_pc.splits sum.splits)

lemma task_length: "length (tasks (taskStep W r fp idx s)) = length (tasks s)"
  by (auto simp: taskStep_def split: option.splits task_pc.splits sum.splits)

lemma task_loop: "idx < length (tasks s) \<Longrightarrow> inv_loop s \<Longrightarrow> inv_loop (taskStep W r fp idx s)"
  by (auto simp: inv_loop_def task_mainPc task_length task_tasks_idle split: main_pc.splits)

lemma ctx_loop: "inv_loop (s\<lparr>ctxErr := c\<rparr>) = inv_loop s"
  by (simp add: inv_loop_def split: main_pc.splits)

lemma step_loop: "inv_loop s \<Longrightarrow> inv_loop (step W r paths ev s)"
  by (cases ev) (auto simp: main_loop task_loop ctx_loop split: option.splits)


lemma taskReport_static_Inl:
  "checkGoBinaryFIPS_static None (taskReadFile W fp) = Inl res \<Longrightarrow>
     taskReport W r fp = mkReport (relPathOf W r fp) res"
  by (simp add: taskReport_def checkGoBinaryFIPS_def)

lemma taskReport_static_Inr:
  "checkGoBinaryFIPS_static None (taskReadFile W fp) = Inr d \<Longrightarrow>
     taskReport W r fp = mkReport (relPathOf W r fp) (runtimeDetails d (cmdRun W fp None))"
  by (simp add: taskReport_def checkGoBinaryFIPS_def)

lemma task_ctx: "ctxErr (taskStep W r fp idx s) = ctxErr s"
  by (auto simp: taskStep_def split: option.splits task_pc.splits sum.splits)

lemma main_ctx: "ctxErr (mainStep s) = ctxErr s"
  by (auto simp: mainStep_def split: option.splits main_pc.splits)

lemma task_ok_step:
  assumes "ctxErr s = None" "idx < length (tasks s)" "length (reports s) = length (tasks s)"
    "length (writes s) = length (tasks s)"
    "task_ok W r fp (tasks s ! idx) (reports s ! idx) (writes s ! idx)"
  shows "task_ok W r fp (tasks (taskStep W r fp idx s) ! idx) (reports (taskStep W r fp idx s) ! idx)
           (writes (taskStep W r fp idx s) ! idx)"
  using assms
  by (cases "tasks s ! idx")
     (auto simp: taskStep_def taskReport_static_Inl taskReport_static_Inr
        split: sum.splits)

lemma task_other:
  "j \<noteq> idx \<Longrightarrow> tasks (taskStep W r fp idx s) ! j = tasks s ! j \<and>
     reports (taskStep W r fp idx s) ! j = reports s ! j \<and>
     writes (taskStep W r fp idx s) ! j = writes s ! j"
  by (auto simp: taskStep_def split: option.splits task_pc.splits sum.splits)

lemma task_live:
  assumes "inv_struct (length paths) s" "idx < length paths" "inv_live W r paths s"
  shows "inv_live W r paths (taskStep W r (paths ! idx) idx s)"
  unfolding inv_live_def
proof (intro impI allI)
  fix j
  assume c: "ctxErr (taskStep W r (paths ! idx) idx s) = None" and j: "j < length paths"
  from c have c0: "ctxErr s = None" by (simp add: task_ctx)
  with assms(3) j have ok: "task_ok W r (paths ! j) (tasks s ! j) (reports s ! j) (writes s ! j)"
    by (simp add: inv_live_def)
  show "task_ok W r (paths ! j) (tasks (taskStep W r (paths ! idx) idx s) ! j)
          (reports (taskStep W r (paths ! idx) idx s) ! j)
          (writes (taskStep W r (paths ! idx) idx s) ! j)"
  proof (cases "j = idx")
    case True
    with ok c0 assms(1,2) show ?thesis
      using task_ok_step[of s idx W r "paths ! idx"] by (simp add: inv_struct_def)
  next
    case False
    with ok show ?thesis by (simp add: task_other)
  qed
qed


lemma main_live:
  assumes "inv_struct (length paths) s" "inv_loop s" "inv_live W r paths s"
  shows "inv_live W r paths (mainStep s)"
  unfolding inv_live_def
proof (intro impI allI)
  fix j
  assume c: "ctxErr (mainStep s) = None" and j: "j < length paths"
  from c have c0: "ctxErr s = None" by (simp add: main_ctx)
  with assms(3) j have ok: "task_ok W r (paths ! j) (tasks s ! j) (reports s ! j) (writes s ! j)"
    by (simp add: inv_live_def)
  show "task_ok W r (paths ! j) (tasks (mainStep s) ! j) (reports (mainStep s) ! j) (writes (mainStep s) ! j)"
  proof (cases "mainPc s")
    case (M_ret res)
    with ok show ?thesis by (simp add: mainStep_def)
  next
    case (M_loop i)
    show ?thesis
    proof (cases "i < length (tasks s)")
      case False
      with ok M_loop c0 show ?thesis by (simp add: mainStep_def)
    next
      case True
      with assms(2) M_loop have idle: "tasks s ! i = T_idle" by (simp add: inv_loop_def)
      show ?thesis
      proof (cases "j = i")
        case True
        with ok idle have "writes s ! j = 0" by simp
        with True M_loop c0 \<open>i < length (tasks s)\<close> show ?thesis by (simp add: mainStep_def)
      next
        case False
        with ok M_loop c0 \<open>i < length (tasks s)\<close> show ?thesis by (simp add: mainStep_def)
      qed
    qed
  qed
qed

lemma step_live:
  assumes "inv_struct (length paths) s" "inv_loop s" "inv_live W r paths s"
  shows "inv_live W r paths (step W r paths ev s)"
proof (cases ev)
  case (CtxDone e)
  with assms(3) show ?thesis by (auto simp: inv_live_def split: option.splits)
next
  case Main
  with assms show ?thesis by (simp add: main_live)
next
  case (Task idx)
  with assms show ?thesis by (simp add: task_live)
qed

lemma all_done:
  assumes "inv_wg s" "wg s = 0" "inv_loop s" "mainPc s = M_loop i" "\<not> i < length (tasks s)"
    "j < length (tasks s)"
  shows "tasks s ! j = T_done"
proof -
  from assms(3,4,5,6) have ni: "tasks s ! j \<noteq> T_idle" by (auto simp: inv_loop_def)
  from assms(1,2) have "filter active (tasks s) = []" by (simp add: inv_wg_def)
  with assms(6) have "\<not> active (tasks s ! j)" by (metis filter_empty_conv nth_mem)
  with ni show ?thesis by (cases "tasks s ! j") simp_all
qed

lemma main_ret:
  assumes "inv_struct (length paths) s" "inv_wg s" "inv_loop s" "inv_live W r paths s" "inv_ret W r paths s"
  shows "inv_ret W r paths (mainStep s)"
proof (cases "mainPc s")
  case (M_ret res)
  with assms(5) show ?thesis by (simp add: mainStep_def)
next
  case (M_loop i)
  show ?thesis
  proof (cases "i < length (tasks s)")
    case True
    with M_loop show ?thesis by (auto simp: mainStep_def inv_ret_def split: option.splits)
  next
    case False
    show ?thesis
    proof (cases "wg s = 0 \<and> ctxErr s = None")
      case False
      with M_loop \<open>\<not> i < length (tasks s)\<close> show ?thesis
        by (auto simp: mainStep_def inv_ret_def split: option.splits)
    next
      case True
      from assms(1) have len: "length (tasks s) = length paths" "length (reports s) = length paths"
        "length (writes s) = length paths" by (simp_all add: inv_struct_def)
      have fin: "tasks s ! j = T_done" if "j < length paths" for j
        using all_done[OF assms(2) _ assms(3) M_loop \<open>\<not> i < length (tasks s)\<close>] True that len by simp
      have ok: "reports s ! j = taskReport W r (paths ! j) \<and> writes s ! j = 1" if "j < length paths" for j
        using assms(4) True that fin[OF that] by (auto simp: inv_live_def)
      have r: "reports s = map (taskReport W r) paths"
        by (rule nth_equalityI) (simp_all add: len ok)
      have w: "writes s = replicate (length paths) 1"
        by (rule nth_equalityI) (simp_all add: len ok)
      have d: "\<forall>pc\<in>set (tasks s). pc = T_done"
        using fin len by (metis in_set_conv_nth)
      from M_loop \<open>\<not> i < length (tasks s)\<close> True r w d show ?thesis
        by (simp add: mainStep_def inv_ret_def)
    qed
  qed
qed

lemma task_ret:
  assumes "idx < length (tasks s)" "inv_ret W r paths s"
  shows "inv_ret W r paths (taskStep W r fp idx s)"
proof (cases "\<exists>rs e. mainPc s = M_ret (Some rs, e)")
  case True
  then obtain rs e where m: "mainPc s = M_ret (Some rs, e)" by blast
  with assms have "tasks s ! idx = T_done" by (simp add: inv_ret_def)
  then have "taskStep W r fp idx s = s" by (simp add: taskStep_def)
  with assms show ?thesis by simp
next
  case False
  with assms(2) show ?thesis
    by (auto simp: inv_ret_def task_mainPc split: main_pc.splits option.splits)
qed

lemma ctx_ret: "inv_ret W r paths (s\<lparr>ctxErr := c\<rparr>) = inv_ret W r paths s"
  by (simp add: inv_ret_def split: main_pc.splits option.splits)

lemma step_ret:
  assumes "inv_struct (length paths) s" "inv_wg s" "inv_loop s" "inv_live W r paths s" "inv_ret W r paths s"
  shows "inv_ret W r paths (step W r paths ev s)"
proof (cases ev)
  case (CtxDone e)
  with assms(5) show ?thesis by (auto simp: ctx_ret split: option.splits)
next
  case Main
  with assms show ?thesis by (simp add: main_ret)
next
  case (Task idx)
  with assms show ?thesis by (simp add: task_ret)
qed

lemma step_inv:
  assumes "inv W r paths s"
  shows "inv W r paths (step W r paths ev s)"
proof -
  from assms have a: "inv_struct (length paths) s" "inv_sem s" "inv_wg s" "inv_loop s"
    "inv_live W r paths s" "inv_ret W r paths s"
    by (simp_all add: inv_def)
  show ?thesis
    unfolding inv_def
    using step_struct[OF a(1)] step_sem[OF a(1) a(4) a(2)] step_wg[OF a(1) a(4) a(3)]
      step_loop[OF a(4)] step_live[OF a(1) a(4) a(5)] step_ret[OF a(1) a(3) a(4) a(5) a(6)]
    by simp
qed

lemma run_inv: "inv W r paths s \<Longrightarrow> inv W r paths (run W r paths evs s)"
  by (induction evs arbitrary: s) (simp_all add: step_inv)

lemma init_inv: "inv W r paths (initState c (length paths))"
  by (simp add: inv_def initState_def inv_struct_def inv_sem_def inv_wg_def inv_loop_def
      inv_live_def inv_ret_def)


lemma run_append: "run W r paths (a @ b) s = run W r paths b (run W r paths a s)"
  by (induction a arbitrary: s) simp_all

lemma main_dispatch:
  assumes "mainPc s = M_loop i" "ctxErr s = None" "i < length (tasks s)"
  shows "mainPc (mainStep s) = M_loop (Suc i) \<and> ctxErr (mainStep s) = None \<and>
         tasks (mainStep s) = (tasks s)[i := T_acquire]"
  using assms by (simp add: mainStep_def)

lemma run_mains:
  "mainPc s = M_loop i \<Longrightarrow> ctxErr s = None \<Longrightarrow> i + m \<le> length (tasks s) \<Longrightarrow>
     (\<forall>j<length (tasks s). j < i \<longrightarrow> tasks s ! j = T_acquire) \<Longrightarrow>
     mainPc (run W r paths (replicate m Main) s) = M_loop (i + m) \<and>
     ctxErr (run W r paths (replicate m Main) s) = None \<and>
     length (tasks (run W r paths (replicate m Main) s)) = length (tasks s) \<and>
     (\<forall>j<length (tasks s). j < i + m \<longrightarrow> tasks (run W r paths (replicate m Main) s) ! j = T_acquire)"
proof (induction m arbitrary: s i)
  case 0
  then show ?case by simp
next
  case (Suc m)
  from Suc.prems have i: "i < length (tasks s)" by simp
  note d = main_dispatch[OF Suc.prems(1,2) i]
  have "\<forall>j<length (tasks (mainStep s)). j < Suc i \<longrightarrow> tasks (mainStep s) ! j = T_acquire"
    using d Suc.prems(4) by (auto simp: nth_list_update less_Suc_eq)
  with Suc.IH[of "mainStep s" "Suc i"] d Suc.prems(3)
  show ?case by simp
qed


lemma task_progress:
  assumes "idx < length (tasks s)" "ctxErr s = None"
    "tasks s ! idx = T_acquire \<longrightarrow> semaphore s < semaphoreCap" "tasks s ! idx \<noteq> T_idle"
  shows "stepsLeft (tasks (taskStep W r fp idx s) ! idx) \<le> stepsLeft (tasks s ! idx) - 1 \<and>
         tasks (taskStep W r fp idx s) ! idx \<noteq> T_idle"
  using assms by (cases "tasks s ! idx") (auto simp: taskStep_def split: sum.splits)

lemma none_holding:
  assumes "inv_sem s" "\<forall>j<length (tasks s). \<not> holding (tasks s ! j)"
  shows "semaphore s = 0"
proof -
  from assms(2) have "filter holding (tasks s) = []"
    by (auto simp: filter_empty_conv in_set_conv_nth)
  with assms(1) show ?thesis by (simp add: inv_sem_def)
qed

lemma run_task:
  "inv W r paths s \<Longrightarrow> ctxErr s = None \<Longrightarrow> k < length paths \<Longrightarrow> tasks s ! k \<noteq> T_idle \<Longrightarrow>
     stepsLeft (tasks s ! k) \<le> m \<Longrightarrow> (\<forall>j<length paths. j \<noteq> k \<longrightarrow> \<not> holding (tasks s ! j)) \<Longrightarrow>
     tasks (run W r paths (replicate m (Task k)) s) ! k = T_done \<and>
     ctxErr (run W r paths (replicate m (Task k)) s) = None \<and>
     mainPc (run W r paths (replicate m (Task k)) s) = mainPc s \<and>
     (\<forall>j. j \<noteq> k \<longrightarrow> tasks (run W r paths (replicate m (Task k)) s) ! j = tasks s ! j) \<and>
     inv W r paths (run W r paths (replicate m (Task k)) s)"
proof (induction m arbitrary: s)
  case 0
  then have "tasks s ! k = T_done" by (cases "tasks s ! k") simp_all
  with 0 show ?case by simp
next
  case (Suc m)
  let ?s1 = "taskStep W r (paths ! k) k s"
  from Suc.prems(1) have len: "length (tasks s) = length paths" and sem: "inv_sem s"
    by (simp_all add: inv_def inv_struct_def)
  with Suc.prems(3) have k: "k < length (tasks s)" by simp
  have st: "step W r paths (Task k) s = ?s1" using k Suc.prems(3) by simp
  have nb: "tasks s ! k = T_acquire \<longrightarrow> semaphore s < semaphoreCap"
  proof
    assume a: "tasks s ! k = T_acquire"
    have "\<forall>j<length (tasks s). \<not> holding (tasks s ! j)"
    proof (intro allI impI)
      fix j assume "j < length (tasks s)"
      then show "\<not> holding (tasks s ! j)"
        using Suc.prems(6) a len by (cases "j = k") simp_all
    qed
    from none_holding[OF sem this] show "semaphore s < semaphoreCap"
      by (simp add: semaphoreCap_def)
  qed
  note pr = task_progress[OF k Suc.prems(2) nb Suc.prems(4), of W r "paths ! k"]
  have i1: "inv W r paths ?s1" using step_inv[OF Suc.prems(1), of "Task k"] st by simp
  have c1: "ctxErr ?s1 = None" using Suc.prems(2) by (simp add: task_ctx)
  have s1: "stepsLeft (tasks ?s1 ! k) \<le> m" using pr Suc.prems(5) by linarith
  have o1: "\<forall>j<length paths. j \<noteq> k \<longrightarrow> \<not> holding (tasks ?s1 ! j)"
    using Suc.prems(6) by (simp add: task_other)
  have unf: "run W r paths (replicate (Suc m) (Task k)) s = run W r paths (replicate m (Task k)) ?s1"
    by (simp only: replicate_Suc run.simps st)
  from Suc.IH[OF i1 c1 Suc.prems(3) _ s1 o1] pr
  show ?case unfolding unf by (simp add: task_mainPc task_other)
qed

lemma six: "[Task k, Task k, Task k, Task k, Task k, Task k] = replicate 6 (Task k)"
  by (simp add: eval_nat_numeral)

lemma run_tasksFrom:
  "inv W r paths s \<Longrightarrow> ctxErr s = None \<Longrightarrow> k + m = length paths \<Longrightarrow>
     (\<forall>j<length paths. tasks s ! j = (if j < k then T_done else T_acquire)) \<Longrightarrow>
     (\<forall>j<length paths. tasks (run W r paths (tasksFrom k m) s) ! j = T_done) \<and>
     ctxErr (run W r paths (tasksFrom k m) s) = None \<and>
     mainPc (run W r paths (tasksFrom k m) s) = mainPc s \<and>
     inv W r paths (run W r paths (tasksFrom k m) s)"
proof (induction m arbitrary: s k)
  case 0
  then show ?case by simp
next
  case (Suc m)
  let ?s1 = "run W r paths (replicate 6 (Task k)) s"
  from Suc.prems(3) have k: "k < length paths" by simp
  have a: "tasks s ! k = T_acquire" using Suc.prems(4) k by simp
  have nh: "\<forall>j<length paths. j \<noteq> k \<longrightarrow> \<not> holding (tasks s ! j)"
    using Suc.prems(4) by simp
  have "tasks ?s1 ! k = T_done \<and> ctxErr ?s1 = None \<and> mainPc ?s1 = mainPc s \<and>
     (\<forall>j. j \<noteq> k \<longrightarrow> tasks ?s1 ! j = tasks s ! j) \<and> inv W r paths ?s1"
    by (rule run_task[OF Suc.prems(1,2) k _ _ nh]) (simp_all add: a)
  then have t: "tasks ?s1 ! k = T_done" and c: "ctxErr ?s1 = None" and m1: "mainPc ?s1 = mainPc s"
    and o: "\<forall>j. j \<noteq> k \<longrightarrow> tasks ?s1 ! j = tasks s ! j" and i: "inv W r paths ?s1"
    by simp_all
  have ts: "\<forall>j<length paths. tasks ?s1 ! j = (if j < Suc k then T_done else T_acquire)"
  proof (intro allI impI)
    fix j assume j: "j < length paths"
    show "tasks ?s1 ! j = (if j < Suc k then T_done else T_acquire)"
    proof (cases "j = k")
      case True
      with t show ?thesis by simp
    next
      case False
      with o Suc.prems(4) j show ?thesis by (auto simp: less_Suc_eq)
    qed
  qed
  from Suc.prems(3) have "Suc k + m = length paths" by simp
  from Suc.IH[OF i c this ts] m1
  show ?case by (simp add: six run_append)
qed


lemma run_fullSchedule:
  "mainPc (run W r paths (fullSchedule (length paths)) (initState None (length paths))) =
     M_ret (Some (map (taskReport W r) paths), None)"
proof -
  let ?n = "length paths"
  let ?s0 = "initState None ?n"
  let ?s1 = "run W r paths (replicate ?n Main) ?s0"
  let ?s2 = "run W r paths (tasksFrom 0 ?n) ?s1"
  let ?s3 = "mainStep ?s2"
  have i0: "inv W r paths ?s0" by (rule init_inv)
  have "mainPc ?s1 = M_loop (0 + ?n) \<and> ctxErr ?s1 = None \<and>
     length (tasks ?s1) = length (tasks ?s0) \<and>
     (\<forall>j<length (tasks ?s0). j < 0 + ?n \<longrightarrow> tasks ?s1 ! j = T_acquire)"
    by (rule run_mains) (simp_all add: initState_def)
  then have m1: "mainPc ?s1 = M_loop ?n" and c1: "ctxErr ?s1 = None"
    and t1: "\<forall>j<?n. tasks ?s1 ! j = (if j < 0 then T_done else T_acquire)"
    by (simp_all add: initState_def)
  have i1: "inv W r paths ?s1" by (rule run_inv[OF i0])
  have "(\<forall>j<?n. tasks ?s2 ! j = T_done) \<and> ctxErr ?s2 = None \<and> mainPc ?s2 = mainPc ?s1 \<and>
     inv W r paths ?s2"
    by (rule run_tasksFrom[OF i1 c1 _ t1]) simp
  with m1 have t2: "\<forall>j<?n. tasks ?s2 ! j = T_done" and c2: "ctxErr ?s2 = None"
    and m2: "mainPc ?s2 = M_loop ?n" and i2: "inv W r paths ?s2"
    by simp_all
  from i2 have len: "length (tasks ?s2) = ?n" and w: "inv_wg ?s2"
    by (simp_all add: inv_def inv_struct_def)
  from t2 len have "filter active (tasks ?s2) = []"
    by (auto simp: filter_empty_conv in_set_conv_nth)
  with w have wg0: "wg ?s2 = 0" by (simp add: inv_wg_def)
  from m2 c2 len wg0 have m3: "mainPc ?s3 = M_ret (Some (reports ?s2), None)"
    by (simp add: mainStep_def)
  have "inv W r paths ?s3" using step_inv[OF i2, of Main] by simp
  then have "inv_ret W r paths ?s3" by (simp add: inv_def)
  with m3 have "reports ?s2 = map (taskReport W r) paths" by (simp add: inv_ret_def)
  with m3 show ?thesis by (simp add: fullSchedule_def run_append)
qed

lemma ret_step: "mainPc s = M_ret res \<Longrightarrow> mainPc (step W r paths ev s) = M_ret res"
  by (cases ev) (auto simp: mainStep_def task_mainPc split: option.splits)

lemma ret_run: "mainPc s = M_ret res \<Longrightarrow> mainPc (run W r paths evs s) = M_ret res"
  by (induction evs arbitrary: s) (simp_all add: ret_step)

lemma dispatch_inv: "inv W r (binaryPaths st) (dispatch W r st sched)"
  unfolding dispatch_def by (rule run_inv[OF init_inv])

section \<open>The evaluator\<close>

text \<open>The evaluator of the specification gives the results that the table of the test expects.\<close>

lemma compliance_tests_pass:
  "list_all (\<lambda>(details, hostCapable, expected). IsBinaryFIPSCompliant details hostCapable = expected)
     complianceTests"
  by (simp add: complianceTests_def IsBinaryFIPSCompliant_def ComplianceEvaluator_def testDetails_def
      zeroDetails_def)

text \<open>
  The status line of the command agrees with the evaluator on a host that is capable; on
  another host it still prints that the binary might be compliant.
\<close>

lemma printedStatus_compliant:
  "IsBinaryFIPSCompliant details hostCapable =
     (printedStatus details = MIGHT_BE_COMPLIANT \<and> hostCapable)"
  by (simp add: IsBinaryFIPSCompliant_def ComplianceEvaluator_def printedStatus_def)

text \<open>
  C1. The evaluation is a total function of the three booleans and follows the table of
  four cases in their order: without \<open>usesSystemCrypto\<close> the verdict is NOT_COMPLIANT
  whatever the other two are; with it and a failed probe, NOT_COMPLIANT; with both and a
  host that is not capable, NOT_COMPLIANT with the reason of the host; the verdict is
  COMPLIANT only when all three hold.
\<close>

theorem ComplianceEvaluator_table:
  "ComplianceEvaluator False runtimeProbePassed hostFipsCapable = (NOT_COMPLIANT, CryptoBackendNotEngaged) \<and>
   ComplianceEvaluator True False hostFipsCapable = (NOT_COMPLIANT, RuntimeRefusedStrictMode) \<and>
   ComplianceEvaluator True True False = (NOT_COMPLIANT, HostLacksValidatedModule) \<and>
   ComplianceEvaluator True True True = (COMPLIANT, Tentative) \<and>
   (fst (ComplianceEvaluator usesSystemCrypto runtimeProbePassed hostFipsCapable) = COMPLIANT) =
     (usesSystemCrypto \<and> runtimeProbePassed \<and> hostFipsCapable)"
  by (simp add: ComplianceEvaluator_def)

section \<open>The runtime probe\<close>

lemma checkRuntimeFIPS_eq:
  "checkRuntimeFIPS r =
     (\<not> (\<exists>m\<in>set fipsPanicIndicators. sublist m (stderrOutput r)), stderrOutput r, None)"
  by (simp add: checkRuntimeFIPS_def indicatorLoop_ex)

lemma runtimeDetails_eq:
  "runtimeDetails details r =
     (details\<lparr>RuntimePanicLog := stderrOutput r,
         FailsOnFIPSCheck := (\<exists>m\<in>set fipsPanicIndicators. sublist m (stderrOutput r))\<rparr>, None)"
  by (simp add: runtimeDetails_def checkRuntimeFIPS_eq)

lemma exPanic_eval: "checkRuntimeFIPS exPanic = (False, stderrOutput exPanic, None)"
  by (simp add: checkRuntimeFIPS_def exPanic_def fipsPanicIndicators_def)

lemma exTimeout_eval: "checkRuntimeFIPS exTimeout = (True, [], None)"
  by (simp add: checkRuntimeFIPS_def exTimeout_def fipsPanicIndicators_def)

text \<open>
  C3. For every candidate that is probed, the probe has failed, with the captured standard
  error kept as the log, if and only if the captured standard error contains one of the
  fixed marker strings; in every other case (a clean exit, an exit with another error, the
  deadline) it has passed. The same holds of the two fields of the report.
\<close>

theorem probe_failed_iff_marker:
  "checkRuntimeFIPS r =
     (\<not> (\<exists>m\<in>set fipsPanicIndicators. sublist m (stderrOutput r)), stderrOutput r, None) \<and>
   FailsOnFIPSCheck (fst (checkGoBinaryFIPS None (Inr info) r)) =
     (\<exists>m\<in>set fipsPanicIndicators. sublist m (stderrOutput r)) \<and>
   RuntimePanicLog (fst (checkGoBinaryFIPS None (Inr info) r)) = stderrOutput r"
  by (simp add: checkRuntimeFIPS_eq runtimeDetails_eq checkGoBinaryFIPS_def checkGoBinaryFIPS_static_def)

theorem probe_failed_iff_marker_witness:
  "(\<exists>m\<in>set fipsPanicIndicators. sublist m (stderrOutput exPanic)) \<and>
   checkRuntimeFIPS exPanic = (False, stderrOutput exPanic, None) \<and>
   \<not> (\<exists>m\<in>set fipsPanicIndicators. sublist m (stderrOutput exTimeout)) \<and>
   checkRuntimeFIPS exTimeout = (True, [], None)"
proof -
  have a: "checkRuntimeFIPS exPanic =
      (\<not> (\<exists>m\<in>set fipsPanicIndicators. sublist m (stderrOutput exPanic)), stderrOutput exPanic, None)"
    using probe_failed_iff_marker[of exPanic exInfo] by blast
  have b: "checkRuntimeFIPS exTimeout =
      (\<not> (\<exists>m\<in>set fipsPanicIndicators. sublist m (stderrOutput exTimeout)), stderrOutput exTimeout, None)"
    using probe_failed_iff_marker[of exTimeout exInfo] by blast
  from a have 1: "\<exists>m\<in>set fipsPanicIndicators. sublist m (stderrOutput exPanic)"
    unfolding exPanic_eval prod.inject by blast
  from b have 2: "\<not> (\<exists>m\<in>set fipsPanicIndicators. sublist m (stderrOutput exTimeout))"
    unfolding exTimeout_eval prod.inject by blast
  from 1 2 exPanic_eval exTimeout_eval show ?thesis by blast
qed

section \<open>A binary that cannot be started\<close>

lemma checkRuntimeFIPS_no_error: "snd (snd (checkRuntimeFIPS r)) = None"
  by (simp add: checkRuntimeFIPS_eq)

lemma checkGoBinaryFIPS_probe_no_error: "snd (checkGoBinaryFIPS None (Inr info) r) = None"
  by (simp add: checkGoBinaryFIPS_def checkGoBinaryFIPS_static_def runtimeDetails_eq)

text \<open>
  C4. When a candidate cannot be executed at all, the probe is to report an error of its own
  on the report of the candidate, not a failed and not a passed probe. The code does not:
  \<open>checkRuntimeFIPS\<close> never returns an error, and a binary that could not be started,
  with nothing on standard error, comes back as a probe that has passed, without an error.
\<close>

theorem start_failure_passes:
  "checkRuntimeFIPS exStartFailure = (True, [], None) \<and>
   checkGoBinaryFIPS None (Inr exInfo) exStartFailure =
     (\<lparr>GoVersion = ''go1.24.6'', Module = ''example.com/app'', UseSystemcrypto = True,
       CGOEnabled = True, FailsOnFIPSCheck = False, RuntimePanicLog = []\<rparr>, None)"
  by (simp add: checkRuntimeFIPS_def exStartFailure_def fipsPanicIndicators_def checkGoBinaryFIPS_def
      checkGoBinaryFIPS_static_def runtimeDetails_def staticDetails_def exInfo_def zeroDetails_def)

section \<open>The flags of the build settings\<close>

lemma staticDetails_CGO:
  "CGOEnabled (staticDetails info) =
     (let cs = filter (\<lambda>kv. fst kv = ''CGO_ENABLED'') (biSettings info)
      in cs \<noteq> [] \<and> snd (last cs) = ''1'')"
  by (simp add: staticDetails_def settingsLoop_CGO zeroDetails_def Let_def)

lemma staticDetails_SC:
  "UseSystemcrypto (staticDetails info) =
     (\<exists>v. (''GOEXPERIMENT'', v) \<in> set (biSettings info) \<and> sublist ''systemcrypto'' v)"
  by (simp add: staticDetails_def settingsLoop_SC zeroDetails_def Let_def)

lemma last_filter_distinct:
  "distinct (map fst ss) \<Longrightarrow> filter (\<lambda>kv. fst kv = k) ss \<noteq> [] \<Longrightarrow>
     (snd (last (filter (\<lambda>kv. fst kv = k) ss)) = v) = ((k, v) \<in> set ss)"
proof (induction ss)
  case Nil
  then show ?case by simp
next
  case (Cons a ss)
  show ?case
  proof (cases "fst a = k")
    case True
    from Cons.prems(1) have "fst a \<notin> fst ` set ss" by simp
    with True have "\<forall>x\<in>set ss. fst x \<noteq> k" by (metis image_eqI)
    then have "filter (\<lambda>kv. fst kv = k) ss = []"
      by (simp add: filter_empty_conv)
    moreover from this have "\<And>w. (k, w) \<notin> set ss" by (auto simp: filter_empty_conv)
    ultimately show ?thesis using True by (cases a) auto
  next
    case False
    with Cons show ?thesis by (cases a) auto
  qed
qed

text \<open>
  C6 as stated fails where the key \<open>CGO_ENABLED\<close> occurs twice: the list contains the
  key with the value 1, and the flag is false, since a later entry assigns it again.
\<close>

theorem cgo_flag_counterexample:
  "\<not> (CGOEnabled (fst (checkGoBinaryFIPS None (Inr exDupSettings) exRun)) \<longleftrightarrow>
        (''CGO_ENABLED'', ''1'') \<in> set (biSettings exDupSettings))"
  by (simp add: checkGoBinaryFIPS_def checkGoBinaryFIPS_static_def runtimeDetails_eq staticDetails_def
      exDupSettings_def zeroDetails_def)

text \<open>
  C6, amended. For every candidate whose build information is readable, \<open>CGOEnabled\<close>
  is true if and only if the last setting with the key \<open>CGO_ENABLED\<close> has the value 1
  (when no key occurs twice: if and only if the list contains that key with the value 1),
  and \<open>UseSystemcrypto\<close> is true if and only if a setting with the key
  \<open>GOEXPERIMENT\<close> has a value that contains \<open>systemcrypto\<close>.
\<close>

theorem static_flags:
  "CGOEnabled (fst (checkGoBinaryFIPS None (Inr info) r)) =
     (let cs = filter (\<lambda>kv. fst kv = ''CGO_ENABLED'') (biSettings info)
      in cs \<noteq> [] \<and> snd (last cs) = ''1'') \<and>
   (distinct (map fst (biSettings info)) \<longrightarrow>
      CGOEnabled (fst (checkGoBinaryFIPS None (Inr info) r)) =
        ((''CGO_ENABLED'', ''1'') \<in> set (biSettings info))) \<and>
   UseSystemcrypto (fst (checkGoBinaryFIPS None (Inr info) r)) =
     (\<exists>v. (''GOEXPERIMENT'', v) \<in> set (biSettings info) \<and> sublist ''systemcrypto'' v)"
proof -
  have d: "fst (checkGoBinaryFIPS None (Inr info) r) =
      (staticDetails info)\<lparr>RuntimePanicLog := stderrOutput r,
         FailsOnFIPSCheck := (\<exists>m\<in>set fipsPanicIndicators. sublist m (stderrOutput r))\<rparr>"
    by (simp add: checkGoBinaryFIPS_def checkGoBinaryFIPS_static_def runtimeDetails_eq)
  have 1: "CGOEnabled (fst (checkGoBinaryFIPS None (Inr info) r)) =
     (let cs = filter (\<lambda>kv. fst kv = ''CGO_ENABLED'') (biSettings info)
      in cs \<noteq> [] \<and> snd (last cs) = ''1'')"
    by (simp add: d staticDetails_CGO)
  have 2: "CGOEnabled (fst (checkGoBinaryFIPS None (Inr info) r)) =
        ((''CGO_ENABLED'', ''1'') \<in> set (biSettings info))" if "distinct (map fst (biSettings info))"
  proof (cases "filter (\<lambda>kv. fst kv = ''CGO_ENABLED'') (biSettings info) = []")
    case True
    then have "(''CGO_ENABLED'', ''1'') \<notin> set (biSettings info)"
      by (auto simp: filter_empty_conv)
    with True 1 show ?thesis by (simp add: Let_def)
  next
    case False
    with last_filter_distinct[OF that False, of "''1''"] 1 show ?thesis by (simp add: Let_def)
  qed
  have 3: "UseSystemcrypto (fst (checkGoBinaryFIPS None (Inr info) r)) =
     (\<exists>v. (''GOEXPERIMENT'', v) \<in> set (biSettings info) \<and> sublist ''systemcrypto'' v)"
    by (simp add: d staticDetails_SC)
  from 1 2 3 show ?thesis by blast
qed

theorem static_flags_witness:
  "distinct (map fst (biSettings exInfo)) \<and>
   (''CGO_ENABLED'', ''1'') \<in> set (biSettings exInfo) \<and>
   CGOEnabled (fst (checkGoBinaryFIPS None (Inr exInfo) exRun)) \<and>
   UseSystemcrypto (fst (checkGoBinaryFIPS None (Inr exInfo) exRun))"
proof -
  have d: "distinct (map fst (biSettings exInfo))" and m: "(''CGO_ENABLED'', ''1'') \<in> set (biSettings exInfo)"
    by (simp_all add: exInfo_def)
  have s: "\<exists>v. (''GOEXPERIMENT'', v) \<in> set (biSettings exInfo) \<and> sublist ''systemcrypto'' v"
    by (rule exI[of _ "''systemcrypto''"]) (simp add: exInfo_def)
  from static_flags[of exInfo exRun] d m s show ?thesis by blast
qed

section \<open>The path filter\<close>

lemma shouldExcludePath_prefix:
  "shouldExcludePath p = (prefix ''/proc/'' p \<or> prefix ''/sys/'' p \<or> prefix ''/dev/'' p)"
  by (simp add: shouldExcludePath_def excludedPrefixes_def excludeLoop_ex)

lemma Join_nested: "dir \<noteq> ''/'' \<Longrightarrow> dir \<noteq> [] \<Longrightarrow> Join (Join dir a) b = dir @ ''/'' @ (a @ ''/'' @ b)"
  by (auto simp: Join_def append_eq_Cons_conv)

text \<open>In the callback a file is collected when it is not excluded and is a Go binary.\<close>

lemma walkFn_file:
  "pollsLeft st \<noteq> Some 0 \<Longrightarrow>
     binaryPaths (snd (walkFn fs st p (Some (DirEntry False)) None)) =
       (if \<not> shouldExcludePath p \<and> isBinary fs p then binaryPaths st @ [p] else binaryPaths st)"
  by (simp add: walkFn_def Let_def)

lemma prefix_below_root:
  assumes "root \<noteq> []" "prefix pre (root @ ''/'' @ rest)" "\<not> prefix pre (root @ ''/'')"
    "pre \<in> set excludedPrefixes"
  shows False
proof -
  from assms(2) have "prefix pre ((root @ ''/'') @ rest)" by simp
  with assms(3) obtain us where us: "pre = (root @ ''/'') @ us" and ne: "us \<noteq> []"
    unfolding prefix_append by (metis append_Nil2 prefix_order.order_refl)
  from assms(1) obtain c cs where r: "root = c # cs" by (cases root) auto
  from assms(4) us r ne show False
    by (auto simp: excludedPrefixes_def Cons_eq_append_conv append_eq_Cons_conv)
qed

lemma at_or_under_Join:
  assumes "root \<noteq> []" "root \<noteq> ''/''" "path = root \<or> (\<exists>rest. path = root @ ''/'' @ rest)"
  shows "Join path name = root @ ''/'' @ name \<or> (\<exists>rest. Join path name = root @ ''/'' @ rest)"
proof -
  from assms have "path \<noteq> ''/''" by (auto simp: append_eq_Cons_conv Cons_eq_append_conv)
  then have "Join path name = path @ ''/'' @ name" by (simp add: Join_def)
  with assms(3) show ?thesis by auto
qed

lemma foldl_Join_under:
  assumes "root \<noteq> []" "root \<noteq> ''/''"
  shows "foldl Join root names = root \<or> (\<exists>rest. foldl Join root names = root @ ''/'' @ rest)"
proof (induction names rule: rev_induct)
  case Nil
  show ?case by simp
next
  case (snoc n names)
  from at_or_under_Join[OF assms snoc, of n] show ?case by auto
qed

lemma not_excluded_at_or_under:
  assumes "root \<noteq> []" "\<not> shouldExcludePath (root @ ''/'')"
    "path = root \<or> (\<exists>rest. path = root @ ''/'' @ rest)"
  shows "\<not> shouldExcludePath path"
proof
  assume "shouldExcludePath path"
  then obtain pre where pre: "pre \<in> set excludedPrefixes" "prefix pre path"
    unfolding shouldExcludePath_def excludeLoop_ex by blast
  from assms(2) pre(1) have np: "\<not> prefix pre (root @ ''/'')"
    unfolding shouldExcludePath_def excludeLoop_ex by blast
  from assms(3) show False
  proof
    assume "path = root"
    with pre(2) have "prefix pre (root @ ''/'')" by (simp add: prefix_prefix)
    with np show False by simp
  next
    assume "\<exists>rest. path = root @ ''/'' @ rest"
    then obtain rest where "path = root @ ''/'' @ rest" by blast
    with pre(2) prefix_below_root[OF assms(1) _ np pre(1), of rest] show False by simp
  qed
qed

lemma live_state: "pollsLeft st = None \<Longrightarrow> st\<lparr>pollsLeft := None\<rparr> = st"
  by (cases st) simp

lemma walkFn_live_file:
  "pollsLeft st = None \<Longrightarrow> \<not> shouldExcludePath p \<Longrightarrow>
     walkFn fs st p (Some (DirEntry False)) None =
       (None, st\<lparr>binaryPaths := binaryPaths st @ filter (isBinary fs) [p]\<rparr>)"
  by (cases st) (simp add: walkFn_def)

lemma walkFn_live_dir:
  "pollsLeft st = None \<Longrightarrow> walkFn fs st p (Some (DirEntry True)) err = (None, st)"
  by (cases st) (simp add: walkFn_def)

text \<open>
  Under such a root, and with a live context, the walk of a node collects every Go binary
  among the files of the node, in their order.
\<close>

lemma walk_under_root:
  "pollsLeft st = None \<Longrightarrow> root \<noteq> [] \<Longrightarrow> root \<noteq> ''/'' \<Longrightarrow> \<not> shouldExcludePath (root @ ''/'') \<Longrightarrow>
     path = root \<or> (\<exists>rest. path = root @ ''/'' @ rest) \<Longrightarrow>
     walkDir (walkFn fs) path node st =
       (None, st\<lparr>binaryPaths := binaryPaths st @ filter (isBinary fs) (filesOf path node)\<rparr>)"
  "pollsLeft st = None \<Longrightarrow> root \<noteq> [] \<Longrightarrow> root \<noteq> ''/'' \<Longrightarrow> \<not> shouldExcludePath (root @ ''/'') \<Longrightarrow>
     path = root \<or> (\<exists>rest. path = root @ ''/'' @ rest) \<Longrightarrow>
     walkEntries (walkFn fs) path entries st =
       (None, st\<lparr>binaryPaths := binaryPaths st @ filter (isBinary fs) (filesOfEntries path entries)\<rparr>)"
proof (induction node and entries arbitrary: path st and path st)
  case File
  from not_excluded_at_or_under[OF File(2,4,5)] File(1) show ?case
    by (simp add: walkFn_live_file)
next
  case (Dir readErr entries)
  from Dir.IH[OF Dir.prems] Dir.prems(1) show ?case
    by (cases readErr) (simp_all add: walkFn_live_dir)
next
  case NoEntries
  show ?case by (cases st) simp
next
  case (Entry name node rest)
  have j: "Join path name = root \<or> (\<exists>r. Join path name = root @ ''/'' @ r)"
    using at_or_under_Join[OF Entry.prems(2,3,5), of name] by blast
  let ?st1 = "st\<lparr>binaryPaths := binaryPaths st @ filter (isBinary fs) (filesOf (Join path name) node)\<rparr>"
  have 1: "walkDir (walkFn fs) (Join path name) node st = (None, ?st1)"
    by (rule Entry.IH(1)[OF Entry.prems(1,2,3,4) j])
  have p1: "pollsLeft ?st1 = None" using Entry.prems(1) by simp
  have 2: "walkEntries (walkFn fs) path rest ?st1 =
     (None, ?st1\<lparr>binaryPaths := binaryPaths ?st1 @ filter (isBinary fs) (filesOfEntries path rest)\<rparr>)"
    by (rule Entry.IH(2)[OF p1 Entry.prems(2,3,4,5)])
  from 1 2 show ?case by simp
qed

text \<open>
  C10, amended. The filter excludes a path if and only if the path begins with one of the
  three strings \<open>/proc/\<close>, \<open>/sys/\<close> and \<open>/dev/\<close>. So when the root is not the
  root of the file system and, followed by a slash, does not itself begin with one of the
  three (as \<open>/tmp/rootfs\<close>), no path that the walk reaches from the root is excluded,
  and the walk collects every Go binary of the tree: the \<open>proc\<close>, \<open>sys\<close> and
  \<open>dev\<close> subtrees of the root are scanned like any other directory.
\<close>

theorem filter_is_literal_prefix:
  "shouldExcludePath p = (prefix ''/proc/'' p \<or> prefix ''/sys/'' p \<or> prefix ''/dev/'' p) \<and>
   (root \<noteq> [] \<and> root \<noteq> ''/'' \<and> \<not> shouldExcludePath (root @ ''/'') \<longrightarrow>
      \<not> shouldExcludePath (foldl Join root names) \<and>
      (pollsLeft st = None \<longrightarrow>
         walkDir (walkFn fs) root node st =
           (None, st\<lparr>binaryPaths := binaryPaths st @ filter (isBinary fs) (filesOf root node)\<rparr>)))"
  using shouldExcludePath_prefix[of p] not_excluded_at_or_under[of root "foldl Join root names"]
    foldl_Join_under[of root names] walk_under_root(1)[of st root root fs node]
  by blast

text \<open>
  C10 as stated fails for a root that is not the root of the file system and lies under one
  of the three prefixes: everything below \<open>/dev/shm/rootfs\<close> is excluded.
\<close>

theorem filter_below_root_counterexample:
  "''/dev/shm/rootfs'' \<noteq> ''/'' \<and>
   foldl Join ''/dev/shm/rootfs'' [''proc'', ''1'', ''exe''] = ''/dev/shm/rootfs/proc/1/exe'' \<and>
   shouldExcludePath (foldl Join ''/dev/shm/rootfs'' [''proc'', ''1'', ''exe''])"
  by (simp add: Join_def shouldExcludePath_def excludedPrefixes_def)

lemma ex_isBinary: "isBinary (walkFS exWorld) p"
  by (simp add: isBinary_def exWorld_def)

theorem filter_is_literal_prefix_witness:
  "''/tmp/rootfs'' \<noteq> [] \<and> ''/tmp/rootfs'' \<noteq> ''/'' \<and> \<not> shouldExcludePath (''/tmp/rootfs'' @ ''/'') \<and>
   foldl Join ''/tmp/rootfs'' [''proc'', ''1'', ''exe''] = ''/tmp/rootfs/proc/1/exe'' \<and>
   \<not> shouldExcludePath ''/tmp/rootfs/proc/1/exe'' \<and> shouldExcludePath ''/proc/1/exe'' \<and>
   binaryPaths (snd (walkDir (walkFn (walkFS exWorld)) ''/tmp/rootfs'' exProcTree
      \<lparr>pollsLeft = None, doneErr = Canceled, binaryPaths = []\<rparr>)) =
     [''/tmp/rootfs/proc/1/exe'', ''/tmp/rootfs/app'']"
proof -
  let ?st = "\<lparr>pollsLeft = None, doneErr = Canceled, binaryPaths = []\<rparr>"
  note t = filter_is_literal_prefix[of "''/proc/1/exe''" "''/tmp/rootfs''" "[''proc'', ''1'', ''exe'']"
      ?st "walkFS exWorld" exProcTree]
  have a: "shouldExcludePath ''/proc/1/exe''" using t by simp
  have b: "\<not> shouldExcludePath (''/tmp/rootfs'' @ ''/'')"
    by (simp add: shouldExcludePath_def excludedPrefixes_def)
  have j: "foldl Join ''/tmp/rootfs'' [''proc'', ''1'', ''exe''] = ''/tmp/rootfs/proc/1/exe''"
    by (simp add: Join_def)
  have c: "''/tmp/rootfs'' \<noteq> [] \<and> ''/tmp/rootfs'' \<noteq> ''/''" by simp
  have l: "pollsLeft ?st = None" by simp
  have f: "filesOf ''/tmp/rootfs'' exProcTree = [''/tmp/rootfs/proc/1/exe'', ''/tmp/rootfs/app'']"
    by (simp add: exProcTree_def Join_def)
  from t b c l have n: "\<not> shouldExcludePath (foldl Join ''/tmp/rootfs'' [''proc'', ''1'', ''exe''])"
    and w: "walkDir (walkFn (walkFS exWorld)) ''/tmp/rootfs'' exProcTree ?st =
      (None, ?st\<lparr>binaryPaths := binaryPaths ?st @
         filter (isBinary (walkFS exWorld)) (filesOf ''/tmp/rootfs'' exProcTree)\<rparr>)"
    by blast+
  from w have "binaryPaths (snd (walkDir (walkFn (walkFS exWorld)) ''/tmp/rootfs'' exProcTree ?st)) =
      [''/tmp/rootfs/proc/1/exe'', ''/tmp/rootfs/app'']"
    by (simp add: f ex_isBinary)
  with a b j c n show ?thesis by simp
qed

text \<open>
  From the root of the file system itself the same tree loses its \<open>proc\<close> subtree.
\<close>

lemma filter_at_filesystem_root:
  "foldl Join ''/'' [''proc'', ''1'', ''exe''] = ''/proc/1/exe'' \<and>
   shouldExcludePath (foldl Join ''/'' [''proc'', ''1'', ''exe''])"
  by (simp add: Join_def shouldExcludePath_def excludedPrefixes_def)

lemma ex_proc_walk_from_root:
  "binaryPaths (snd (walkDir (walkFn (walkFS exWorld)) ''/'' exProcTree
      \<lparr>pollsLeft = None, doneErr = Canceled, binaryPaths = []\<rparr>)) = [''/app'']"
  by code_simp

section \<open>A root that does not exist\<close>

lemma discover_missing_root:
  "osLstat W absRoot = Inl err \<Longrightarrow>
     discover W polls derr absRoot = (None, \<lparr>pollsLeft = polls, doneErr = derr, binaryPaths = []\<rparr>)"
  by (simp add: discover_def WalkDir_def walkFn_def)

lemma run_no_candidates:
  "tasks s = [] \<Longrightarrow> mainPc s = M_loop i \<Longrightarrow> wg s = 0 \<Longrightarrow> ctxErr s = None \<Longrightarrow>
     \<forall>ev\<in>set pre. \<not> isCtxDone ev \<Longrightarrow>
     mainPc (run W r [] (pre @ Main # post) s) = M_ret (Some (reports s), None)"
proof (induction pre arbitrary: s)
  case Nil
  then have "mainPc (mainStep s) = M_ret (Some (reports s), None)" by (simp add: mainStep_def)
  then show ?case by (simp add: ret_run)
next
  case (Cons ev pre)
  show ?case
  proof (cases ev)
    case (CtxDone e)
    with Cons.prems show ?thesis by simp
  next
    case Main
    from Cons.prems have "mainPc (mainStep s) = M_ret (Some (reports s), None)" by (simp add: mainStep_def)
    with Main show ?thesis by (simp add: ret_run)
  next
    case (Task idx)
    with Cons show ?thesis by simp
  qed
qed

lemma run_no_candidates_done:
  "tasks s = [] \<Longrightarrow> mainPc s = M_loop i \<Longrightarrow> ctxErr s = Some e \<Longrightarrow> wg s = 0 \<Longrightarrow>
     mainPc (run W r [] (pre @ Main # post) s) = M_ret (None, Some (CtxError e))"
proof (induction pre arbitrary: s)
  case Nil
  then have "mainPc (mainStep s) = M_ret (None, Some (CtxError e))" by (simp add: mainStep_def)
  then show ?case by (simp add: ret_run)
next
  case (Cons ev pre)
  show ?case
  proof (cases ev)
    case (CtxDone e')
    with Cons show ?thesis by simp
  next
    case Main
    from Cons.prems have "mainPc (mainStep s) = M_ret (None, Some (CtxError e))" by (simp add: mainStep_def)
    with Main show ?thesis by (simp add: ret_run)
  next
    case (Task idx)
    with Cons show ?thesis by simp
  qed
qed

lemma Check_missing_root_done:
  assumes "filepathAbs W path = Inr absRoot" "osLstat W absRoot = Inl err"
  shows "Check W (Some 0) derr path (pre @ Main # post) = Some (None, Some (CtxError derr))"
  using assms run_no_candidates_done[of "initState (Some derr) 0" 0 derr W absRoot pre post]
  by (simp add: Check_def discover_missing_root dispatch_def initState_def)

text \<open>
  A root that is a directory which cannot be read, and has no entries, gives the same
  result, when the context is live at the one poll of the walk and after it.
\<close>

lemma Check_unreadable_root:
  assumes "filepathAbs W path = Inr absRoot" "osLstat W absRoot = Inr (Dir (Some err) NoEntries)"
    "polls = None \<or> (\<exists>k. polls = Some (Suc (Suc k)))" "\<forall>ev\<in>set pre. \<not> isCtxDone ev"
  shows "Check W polls derr path (pre @ Main # post) = Some (Some [], None)"
  using assms run_no_candidates[of "initState None 0" 0 pre W absRoot post]
  by (auto simp: Check_def discover_def WalkDir_def walkFn_def dispatch_def initState_def)

text \<open>
  C9, amended. For every root path that does not exist, or of which \<open>Lstat\<close> fails
  otherwise, the callback skips the error and the walk ends with no candidate and no error;
  \<open>Check\<close> then returns an empty collection and a nil error, not a walk error, provided
  that the context is not done when the calling goroutine polls it after the walk.
\<close>

theorem Check_missing_root:
  assumes "filepathAbs W path = Inr absRoot" "osLstat W absRoot = Inl err"
    "polls \<noteq> Some 0" "\<forall>ev\<in>set pre. \<not> isCtxDone ev"
  shows "Check W polls derr path (pre @ Main # post) = Some (Some [], None)"
  using assms run_no_candidates[of "initState None 0" 0 pre W absRoot post]
  by (simp add: Check_def discover_missing_root dispatch_def initState_def)

lemma ex_abs: "filepathAbs exWorld p = Inr p"
  by (simp add: exWorld_def)

lemma ex_lstat_nope: "osLstat exWorld ''/nope'' = Inl (OSError ''no such file or directory'')"
  by (simp add: exWorld_def)

theorem Check_missing_root_witness:
  "filepathAbs exWorld ''/nope'' = Inr ''/nope'' \<and>
   osLstat exWorld ''/nope'' = Inl (OSError ''no such file or directory'') \<and>
   Check exWorld None Canceled ''/nope'' [Task 0, Main, CtxDone Canceled] = Some (Some [], None)"
  using Check_missing_root[OF ex_abs ex_lstat_nope, of None "[Task 0]" Canceled "[CtxDone Canceled]"]
    ex_abs ex_lstat_nope
  by simp

text \<open>
  C9 as stated fails when the context is done, before the call or by the time of the last
  poll: the walk of a missing root does not poll the context, and \<open>Check\<close> returns no
  collection and the error of the context.
\<close>

theorem Check_missing_root_counterexample:
  "osLstat exWorld ''/nope'' = Inl (OSError ''no such file or directory'') \<and>
   Check exWorld (Some 0) Canceled ''/nope'' [Main] = Some (None, Some (CtxError Canceled)) \<and>
   Check exWorld None Canceled ''/nope'' [CtxDone Canceled, Main] = Some (None, Some (CtxError Canceled))"
  by (simp add: ex_lstat_nope ex_abs Check_def discover_missing_root dispatch_def initState_def mainStep_def)

section \<open>The walk finds every path once\<close>

lemma Join_slash: "Join dir name = slash dir @ name"
  by (simp add: Join_def slash_def)

lemma slash_Join: "name \<noteq> [] \<Longrightarrow> slash (slash dir @ name) = slash dir @ name @ ''/''"
  by (auto simp: slash_def append_eq_Cons_conv)

lemma below_Join_subset: "name \<noteq> [] \<Longrightarrow> below (Join dir name) \<subseteq> below dir"
  by (auto simp: below_def slash_Join Join_slash prefix_def)

lemma takeWhile_name:
  "CHR ''/'' \<notin> set n \<Longrightarrow> x = [] \<or> hd x = CHR ''/'' \<Longrightarrow> takeWhile (\<lambda>c. c \<noteq> CHR ''/'') (n @ x) = n"
  by (cases x) (auto simp: takeWhile_append2 takeWhile_tail)

lemma below_Join_decomp:
  "name \<noteq> [] \<Longrightarrow> q \<in> below (Join dir name) \<Longrightarrow> \<exists>x. q = slash dir @ name @ x \<and> (x = [] \<or> hd x = CHR ''/'')"
  by (auto simp: below_def slash_Join Join_slash prefix_def)

lemma below_Join_disjoint:
  assumes "n1 \<noteq> n2" "n1 \<noteq> []" "n2 \<noteq> []" "CHR ''/'' \<notin> set n1" "CHR ''/'' \<notin> set n2"
  shows "below (Join dir n1) \<inter> below (Join dir n2) = {}"
proof (rule ccontr)
  assume "below (Join dir n1) \<inter> below (Join dir n2) \<noteq> {}"
  then obtain q where q1: "q \<in> below (Join dir n1)" and q2: "q \<in> below (Join dir n2)" by blast
  from below_Join_decomp[OF assms(2) q1] obtain x where x: "q = slash dir @ n1 @ x" "x = [] \<or> hd x = CHR ''/''" by blast
  from below_Join_decomp[OF assms(3) q2] obtain y where y: "q = slash dir @ n2 @ y" "y = [] \<or> hd y = CHR ''/''" by blast
  from x(1) y(1) have "n1 @ x = n2 @ y" by simp
  then have "takeWhile (\<lambda>c. c \<noteq> CHR ''/'') (n1 @ x) = takeWhile (\<lambda>c. c \<noteq> CHR ''/'') (n2 @ y)" by simp
  with takeWhile_name[OF assms(4) x(2)] takeWhile_name[OF assms(5) y(2)] assms(1) show False by simp
qed

lemma walkFn_paths:
  "\<exists>new. binaryPaths (snd (walkFn fs st p d err)) = binaryPaths st @ new \<and> distinct new \<and> set new \<subseteq> {p}"
  by (auto simp: walkFn_def Let_def split: option.splits)


lemma walkFn_dir:
  "binaryPaths (snd (walkFn fs st p (Some (DirEntry True)) err)) = binaryPaths st"
  by (auto simp: walkFn_def Let_def)

lemma wfEntries_names:
  "wfEntries entries \<Longrightarrow> name \<in> set (entryNames entries) \<Longrightarrow> name \<noteq> [] \<and> CHR ''/'' \<notin> set name"
  by (induction entries rule: entryNames.induct) auto

lemma self_below: "p \<in> below p"
  by (simp add: below_def)

text \<open>
  What the walk of a node adds to the candidates has no path twice and lies at or under the
  path of the node; what the walk of the entries of a directory adds lies under the paths
  of the entries.
\<close>

lemma walk_paths:
  "wfNode node \<Longrightarrow>
     \<exists>new. binaryPaths (snd (walkDir (walkFn fs) path node st)) = binaryPaths st @ new \<and>
           distinct new \<and> set new \<subseteq> below path"
  "wfEntries entries \<Longrightarrow> distinct (entryNames entries) \<Longrightarrow>
     \<exists>new. binaryPaths (snd (walkEntries (walkFn fs) path entries st)) = binaryPaths st @ new \<and>
           distinct new \<and> set new \<subseteq> (\<Union>name\<in>set (entryNames entries). below (Join path name))"
proof (induction node and entries arbitrary: path st and path st)
  case File
  from walkFn_paths[of fs st path "Some (DirEntry False)" None] self_below[of path]
  show ?case by auto
next
  case (Dir readErr entries)
  let ?r1 = "walkFn fs st path (Some (DirEntry True)) None"
  have b1: "binaryPaths (snd ?r1) = binaryPaths st" by (rule walkFn_dir)
  from Dir.prems have wf: "wfEntries entries" "distinct (entryNames entries)" by simp_all
  have sub: "(\<Union>name\<in>set (entryNames entries). below (Join path name)) \<subseteq> below path"
    using wfEntries_names[OF wf(1)] below_Join_subset by blast
  have ents: "\<exists>new. binaryPaths (snd (walkEntries (walkFn fs) path entries s)) = binaryPaths s @ new \<and>
           distinct new \<and> set new \<subseteq> below path" for s
    using Dir.IH[OF wf, of path s] sub by blast
  have nil: "\<exists>new. binaryPaths st = binaryPaths st @ new \<and> distinct new \<and> set new \<subseteq> below path"
    by (rule exI[of _ "[]"]) simp
  show ?case
  proof (cases ?r1)
    case (Pair e1 st1)
    with b1 have s1: "binaryPaths st1 = binaryPaths st" by simp
    show ?thesis
    proof (cases e1)
      case (Some e)
      with Pair s1 nil show ?thesis by simp
    next
      case None
      show ?thesis
      proof (cases readErr)
        case None
        with Pair \<open>e1 = None\<close> ents[of st1] s1 show ?thesis by simp
      next
        case (Some re)
        let ?r2 = "walkFn fs st1 path (Some (DirEntry True)) (Some re)"
        have b2: "binaryPaths (snd ?r2) = binaryPaths st" using walkFn_dir[of fs st1 path "Some re"] s1 by simp
        show ?thesis
        proof (cases ?r2)
          case (Pair e2 st2)
          with b2 have s2: "binaryPaths st2 = binaryPaths st" by simp
          show ?thesis
          proof (cases e2)
            case None
            with Pair \<open>?r1 = (e1, st1)\<close> \<open>e1 = None\<close> Some ents[of st2] s2 show ?thesis by simp
          next
            case (Some e)
            with Pair \<open>?r1 = (e1, st1)\<close> \<open>e1 = None\<close> \<open>readErr = Some re\<close> s2 nil show ?thesis by simp
          qed
        qed
      qed
    qed
  qed
next
  case NoEntries
  show ?case by simp
next
  case (Entry name node rest)
  from Entry.prems have wf: "wfNode node" "wfEntries rest" "distinct (entryNames rest)"
    "name \<notin> set (entryNames rest)" "name \<noteq> []" "CHR ''/'' \<notin> set name"
    by simp_all
  let ?r1 = "walkDir (walkFn fs) (Join path name) node st"
  from Entry.IH(1)[OF wf(1), of "Join path name" st]
  obtain new1 where n1: "binaryPaths (snd ?r1) = binaryPaths st @ new1" "distinct new1"
    "set new1 \<subseteq> below (Join path name)" by blast
  show ?case
  proof (cases ?r1)
    case (Pair e1 st1)
    with n1 have s1: "binaryPaths st1 = binaryPaths st @ new1" by simp
    show ?thesis
    proof (cases e1)
      case (Some e)
      with Pair s1 n1 show ?thesis by auto
    next
      case None
      from Entry.IH(2)[OF wf(2,3), of path st1]
      obtain new2 where n2: "binaryPaths (snd (walkEntries (walkFn fs) path rest st1)) = binaryPaths st1 @ new2"
        "distinct new2" "set new2 \<subseteq> (\<Union>n\<in>set (entryNames rest). below (Join path n))" by blast
      have "set new1 \<inter> set new2 = {}"
      proof (rule ccontr)
        assume "set new1 \<inter> set new2 \<noteq> {}"
        then obtain q where q: "q \<in> set new1" "q \<in> set new2" by blast
        with n2(3) obtain n where n: "n \<in> set (entryNames rest)" "q \<in> below (Join path n)" by blast
        from wf(4) n(1) have ne: "name \<noteq> n" by blast
        from wfEntries_names[OF wf(2) n(1)] have nn: "n \<noteq> []" "CHR ''/'' \<notin> set n" by simp_all
        have "below (Join path name) \<inter> below (Join path n) = {}"
          by (rule below_Join_disjoint[OF ne wf(5) nn(1) wf(6) nn(2)])
        with q(1) n1(3) n(2) show False by blast
      qed
      with n1(2) n2(2) have d: "distinct (new1 @ new2)" by simp
      have "set (new1 @ new2) \<subseteq> (\<Union>n\<in>set (entryNames (Entry name node rest)). below (Join path n))"
        using n1(3) n2(3) by auto
      with d n2(1) s1 Pair None show ?thesis
        by (intro exI[of _ "new1 @ new2"]) simp
    qed
  qed
qed

lemma discover_distinct:
  assumes "discover W polls derr absRoot = (werr, st)" "\<forall>node. osLstat W absRoot = Inr node \<longrightarrow> wfNode node"
  shows "distinct (binaryPaths st)"
proof (cases "osLstat W absRoot")
  case (Inl err)
  with assms(1) show ?thesis by (auto simp: discover_def WalkDir_def walkFn_def)
next
  case (Inr node)
  with assms(2) have "wfNode node" by simp
  from walk_paths(1)[OF this, of "walkFS W" absRoot "\<lparr>pollsLeft = polls, doneErr = derr, binaryPaths = []\<rparr>"]
    assms(1) Inr
  show ?thesis by (auto simp: discover_def WalkDir_def)
qed

section \<open>What Check returns\<close>

lemma Check_Some_Some:
  assumes "filepathAbs W path = Inr absRoot" "discover W polls derr absRoot = (None, st)"
    "Check W polls derr path sched = Some (Some rs, e)"
  shows "e = None \<and> rs = map (taskReport W absRoot) (binaryPaths st) \<and>
         writes (dispatch W absRoot st sched) = replicate (length (binaryPaths st)) 1 \<and>
         (\<forall>pc\<in>set (tasks (dispatch W absRoot st sched)). pc = T_done)"
proof -
  from assms have m: "mainPc (dispatch W absRoot st sched) = M_ret (Some rs, e)"
    by (simp add: Check_def split: main_pc.splits)
  from dispatch_inv[of W absRoot st sched] have "inv_ret W absRoot (binaryPaths st) (dispatch W absRoot st sched)"
    by (simp add: inv_def)
  with m show ?thesis by (simp add: inv_ret_def)
qed

text \<open>
  Whatever the schedule, \<open>Check\<close> returns a collection without an error or an error
  without a collection, and a collection that it returns is complete.
\<close>

lemma Check_all_or_nothing:
  assumes "Check W polls derr path sched = Some (rs, e)"
  shows "(rs = None \<and> e \<noteq> None) \<or> (rs \<noteq> None \<and> e = None)"
proof (cases "filepathAbs W path")
  case (Inl err)
  with assms show ?thesis by (auto simp: Check_def)
next
  case (Inr absRoot)
  obtain werr st where d: "discover W polls derr absRoot = (werr, st)" by (cases "discover W polls derr absRoot")
  show ?thesis
  proof (cases werr)
    case (Some err)
    with assms Inr d show ?thesis by (auto simp: Check_def)
  next
    case None
    with assms Inr d have m: "mainPc (dispatch W absRoot st sched) = M_ret (rs, e)"
      by (simp add: Check_def split: main_pc.splits)
    from dispatch_inv[of W absRoot st sched] have "inv_ret W absRoot (binaryPaths st) (dispatch W absRoot st sched)"
      by (simp add: inv_def)
    with m show ?thesis by (cases rs) (simp_all add: inv_ret_def)
  qed
qed

text \<open>
  When the context stays live, the schedule \<open>fullSchedule\<close> makes \<open>Check\<close> return
  the reports of all candidates.
\<close>

lemma Check_fullSchedule:
  assumes "filepathAbs W path = Inr absRoot" "discover W polls derr absRoot = (None, st)"
    "pollsLeft st \<noteq> Some 0"
  shows "Check W polls derr path (fullSchedule (length (binaryPaths st))) =
           Some (Some (map (taskReport W absRoot) (binaryPaths st)), None)"
  using assms run_fullSchedule[of W absRoot "binaryPaths st"]
  by (simp add: Check_def dispatch_def)

text \<open>
  After the loop the calling goroutine returns only when every task has finished.
\<close>

lemma wait_returns_after_all_tasks:
  assumes "inv W r paths s" "mainPc s = M_loop i" "\<not> i < length (tasks s)"
    "mainPc (mainStep s) = M_ret res"
  shows "\<forall>pc\<in>set (tasks s). pc = T_done"
proof -
  from assms(2,3,4) have w: "wg s = 0" by (auto simp: mainStep_def split: if_splits)
  from assms(1) have "inv_wg s" "inv_loop s" by (simp_all add: inv_def)
  from all_done[OF this(1) w this(2) assms(2,3)] show ?thesis by (metis in_set_conv_nth)
qed

section \<open>The example, evaluated\<close>

lemma ex_discover: "discover exWorld None Canceled ''/img'' = (None, exWalk)"
  unfolding exWalk_def by code_simp

lemma init2:
  "initState c 2 = \<lparr>ctxErr = c, mainPc = M_loop 0, tasks = [T_idle, T_idle],
     reports = [zeroReport, zeroReport], writes = [0, 0], semaphore = 0, wg = 0\<rparr>"
  by (simp add: initState_def numeral_2_eq_2)

lemma ex_task_fields:
  "taskReadFile exWorld p = Inr exInfo"
  "cmdRun exWorld p c = exRun"
  "relPathOf exWorld ''/img'' ''/img/a'' = ''a''"
  "relPathOf exWorld ''/img'' ''/img/b'' = ''b''"
  by (simp_all add: exWorld_def relPathOf_def)

lemma ex_dispatch:
  "dispatch W ''/img'' exWalk sched =
     run W ''/img'' [''/img/a'', ''/img/b''] sched (initState None 2)"
  by (simp add: dispatch_def exWalk_def numeral_2_eq_2)

lemma ex_early_state:
  "run exWorld ''/img'' [''/img/a'', ''/img/b''] exEarlyReturn (initState None 2) =
     \<lparr>ctxErr = Some Canceled, mainPc = M_ret (None, Some (CtxError Canceled)),
      tasks = [T_probe (staticDetails exInfo), T_idle],
      reports = [zeroReport, zeroReport], writes = [0, 0], semaphore = 1, wg = 1\<rparr>"
  by (simp add: init2 exEarlyReturn_def mainStep_def taskStep_def semaphoreCap_def ex_task_fields
      checkGoBinaryFIPS_static_def)

lemma ex_Check:
  "Check exWorld None Canceled ''/img'' sched =
     (case mainPc (run exWorld ''/img'' [''/img/a'', ''/img/b''] sched (initState None 2)) of
        M_ret res \<Rightarrow> Some res | M_loop i \<Rightarrow> None)"
  by (simp add: Check_def ex_abs ex_discover ex_dispatch)

text \<open>
  C2. When the context is cancelled while tasks are running, \<open>Check\<close> is to wait for
  every task that it has started before it returns the error. In the dispatch loop it does
  not: with two candidates, the context is cancelled while the first task is inside
  \<open>cmd.Run()\<close>; the loop polls the context before it starts the second task and
  \<open>Check\<close> returns at once, the first task still running.
\<close>

theorem early_return_leaves_task_running:
  "Check exWorld None Canceled ''/img'' exEarlyReturn = Some (None, Some (CtxError Canceled)) \<and>
   tasks (dispatch exWorld ''/img'' exWalk exEarlyReturn) = [T_probe (staticDetails exInfo), T_idle]"
  by (simp add: ex_Check ex_dispatch ex_early_state)

lemma ex_reverse_state:
  "mainPc (run exWorld ''/img'' [''/img/a'', ''/img/b''] exReverse (initState None 2)) =
     M_ret (Some [mkReport ''a'' (runtimeDetails (staticDetails exInfo) exRun),
                  mkReport ''b'' (runtimeDetails (staticDetails exInfo) exRun)], None)"
  by (simp add: init2 exReverse_def mainStep_def taskStep_def semaphoreCap_def ex_task_fields
      checkGoBinaryFIPS_static_def)

section \<open>The semaphore, the order of the reports, and a failing candidate\<close>

lemma filter_mono_length:
  "(\<And>x. P x \<Longrightarrow> Q x) \<Longrightarrow> length (filter P xs) \<le> length (filter Q xs)"
  by (induction xs) auto

lemma probing_holding: "probing pc \<Longrightarrow> holding pc"
  by (cases pc) simp_all

lemma acquire_blocks_when_full:
  "tasks s ! idx = T_acquire \<Longrightarrow> semaphore s = semaphoreCap \<Longrightarrow> taskStep W r fp idx s = s"
  by (simp add: taskStep_def)

text \<open>
  C8. In every state that a scan reaches, the tasks whose subprocess is running are among
  those that hold a token of the semaphore, the tokens in the channel are as many as the
  tasks between their send on the channel and their deferred receive, and they are at most
  ten: a task takes a token before it checks its candidate and gives it back at its end.
\<close>

theorem probes_bounded_by_semaphore:
  "length (filter probing (tasks (dispatch W absRoot st sched)))
     \<le> length (filter holding (tasks (dispatch W absRoot st sched))) \<and>
   length (filter holding (tasks (dispatch W absRoot st sched))) = semaphore (dispatch W absRoot st sched) \<and>
   semaphore (dispatch W absRoot st sched) \<le> semaphoreCap \<and> semaphoreCap = 10"
proof -
  from dispatch_inv[of W absRoot st sched] have "inv_sem (dispatch W absRoot st sched)"
    by (simp add: inv_def)
  then show ?thesis
    by (simp add: inv_sem_def semaphoreCap_def filter_mono_length probing_holding)
qed

text \<open>
  C7. Every collection that a scan returns has one report for each candidate that the walk
  has found, in the order of the walk, whatever the order in which the tasks have run and
  finished; each slot has been written once; and the walk of a tree has found no candidate
  twice.
\<close>

theorem reports_in_discovery_order:
  assumes "filepathAbs W path = Inr absRoot" "discover W polls derr absRoot = (None, st)"
    "Check W polls derr path sched = Some (Some rs, e)"
  shows "e = None \<and> length rs = length (binaryPaths st) \<and>
         rs = map (taskReport W absRoot) (binaryPaths st) \<and>
         writes (dispatch W absRoot st sched) = replicate (length (binaryPaths st)) 1 \<and>
         ((\<forall>node. osLstat W absRoot = Inr node \<longrightarrow> wfNode node) \<longrightarrow> distinct (binaryPaths st))"
  using Check_Some_Some[OF assms] discover_distinct[OF assms(2)] by simp

lemma ex_reverse_Check:
  "Check exWorld None Canceled ''/img'' exReverse =
     Some (Some [mkReport ''a'' (runtimeDetails (staticDetails exInfo) exRun),
                 mkReport ''b'' (runtimeDetails (staticDetails exInfo) exRun)], None)"
  by (simp add: ex_Check ex_reverse_state)

lemma ex_tree_wf: "\<forall>node. osLstat exWorld ''/img'' = Inr node \<longrightarrow> wfNode node"
  by (simp add: exWorld_def exTree_def)

theorem reports_in_discovery_order_witness:
  "filepathAbs exWorld ''/img'' = Inr ''/img'' \<and>
   discover exWorld None Canceled ''/img'' = (None, exWalk) \<and>
   osLstat exWorld ''/img'' = Inr exTree \<and> wfNode exTree \<and>
   Check exWorld None Canceled ''/img'' exReverse =
     Some (Some [taskReport exWorld ''/img'' ''/img/a'', taskReport exWorld ''/img'' ''/img/b''], None) \<and>
   writes (dispatch exWorld ''/img'' exWalk exReverse) = [1, 1] \<and>
   distinct (binaryPaths exWalk)"
proof -
  have t: "osLstat exWorld ''/img'' = Inr exTree" "wfNode exTree"
    by (simp_all add: exWorld_def exTree_def)
  from reports_in_discovery_order[OF ex_abs ex_discover ex_reverse_Check] ex_tree_wf
  have "[mkReport ''a'' (runtimeDetails (staticDetails exInfo) exRun),
         mkReport ''b'' (runtimeDetails (staticDetails exInfo) exRun)] =
          map (taskReport exWorld ''/img'') (binaryPaths exWalk)"
    and "writes (dispatch exWorld ''/img'' exWalk exReverse) = replicate (length (binaryPaths exWalk)) 1"
    and "distinct (binaryPaths exWalk)"
    by blast+
  with t ex_abs ex_discover ex_reverse_Check show ?thesis
    by (simp add: exWalk_def numeral_2_eq_2)
qed

lemma taskReport_withUnreadable:
  "taskReport (withUnreadable W p err) absRoot fp =
     (if fp = p then extractionErrorReport W absRoot fp err else taskReport W absRoot fp)"
  by (auto simp: taskReport_def withUnreadable_def relPathOf_def checkGoBinaryFIPS_def
      checkGoBinaryFIPS_static_def extractionErrorReport_def mkReport_def)

lemma discover_withUnreadable:
  "discover (withUnreadable W p err) polls derr absRoot = discover W polls derr absRoot"
  by (simp add: discover_def withUnreadable_def)

lemma abs_withUnreadable: "filepathAbs (withUnreadable W p err) = filepathAbs W"
  by (simp add: withUnreadable_def)

text \<open>
  C5. Make the build information of one candidate unreadable for its task. Every collection
  that a scan returns then has, for that candidate, the report with the error and with no
  details, and for every other candidate the report that it has without the change; and
  the scan is not aborted: under \<open>fullSchedule\<close> and a live context it returns that
  collection.
\<close>

theorem extraction_error_isolated:
  assumes "filepathAbs W path = Inr absRoot" "discover W polls derr absRoot = (None, st)"
  shows "(Check (withUnreadable W p err) polls derr path sched = Some (Some rs, e) \<longrightarrow>
            e = None \<and>
            rs = map (\<lambda>fp. if fp = p then extractionErrorReport W absRoot fp err
                            else taskReport W absRoot fp) (binaryPaths st)) \<and>
         (pollsLeft st \<noteq> Some 0 \<longrightarrow>
            Check (withUnreadable W p err) polls derr path (fullSchedule (length (binaryPaths st))) =
              Some (Some (map (\<lambda>fp. if fp = p then extractionErrorReport W absRoot fp err
                                      else taskReport W absRoot fp) (binaryPaths st)), None))"
proof -
  let ?W = "withUnreadable W p err"
  have a: "filepathAbs ?W path = Inr absRoot" using assms(1) by (simp add: abs_withUnreadable)
  have d: "discover ?W polls derr absRoot = (None, st)" using assms(2) by (simp add: discover_withUnreadable)
  have t: "map (taskReport ?W absRoot) (binaryPaths st) =
      map (\<lambda>fp. if fp = p then extractionErrorReport W absRoot fp err else taskReport W absRoot fp) (binaryPaths st)"
    by (simp add: taskReport_withUnreadable)
  show ?thesis
    using Check_Some_Some[OF a d, of sched rs e] Check_fullSchedule[OF a d] unfolding t by blast
qed

theorem extraction_error_isolated_witness:
  "filepathAbs exWorld ''/img'' = Inr ''/img'' \<and>
   discover exWorld None Canceled ''/img'' = (None, exWalk) \<and>
   Check exCorrupt None Canceled ''/img'' (fullSchedule 2) =
     Some (Some [taskReport exWorld ''/img'' ''/img/a'',
                 extractionErrorReport exWorld ''/img'' ''/img/b'' (OSError ''unexpected EOF'')], None)"
  using extraction_error_isolated[OF ex_abs ex_discover, of "''/img/b''" "OSError ''unexpected EOF''"
      "fullSchedule 2"
      "[taskReport exWorld ''/img'' ''/img/a'',
        extractionErrorReport exWorld ''/img'' ''/img/b'' (OSError ''unexpected EOF'')]" None]
    ex_abs ex_discover
  by (simp add: exWalk_def exCorrupt_def numeral_2_eq_2)

end
